theory Spec2Isabelle
  imports Main "HOL-Library.Word"
begin

unbundle bit_operations_syntax

section \<open>Data model (engine.go, render.go)\<close>

text \<open>
  \<^verbatim>\<open>type Entity = uint32\<close>, \<^verbatim>\<open>type Counter Entity\<close>, \<^verbatim>\<open>type XAS []byte\<close>.
  Go strings are byte strings; they are modelled as \<open>string\<close> (a list of 8-bit characters).
\<close>

type_synonym Entity = "32 word"
type_synonym Counter = "32 word"
type_synonym byte = "8 word"
type_synonym XAS = "byte list"
type_synonym addr = nat

text \<open>
  \<^verbatim>\<open>type intentHandler [Seppuku]func(Context) Context\<close>: one nullable function per intent
  type. The functions are values of a type parameter; \<open>None\<close> is the nil function.
\<close>

type_synonym 'a intentHandler = "'a option list"

definition Seppuku :: nat where
  "Seppuku = 17"

definition no_handler :: "'a intentHandler" where
  "no_handler = replicate Seppuku None"

definition Some_hdl :: "'a intentHandler \<Rightarrow> bool" where
  "Some_hdl i = list_ex (\<lambda>h. h \<noteq> None) i"

record Attr =
  Name :: string
  Value :: string

text \<open>
  \<^verbatim>\<open>type Node struct\<close>. A \<^verbatim>\<open>*Node\<close> is an address into a store of nodes (or nil, \<open>None\<close>);
  the children are pointers, so that one node object can sit at several positions.
\<close>

record 'a Node =
  Entity :: Entity
  TagName :: string
  Classes :: string
  Text :: string
  Focused :: bool
  Children :: "addr option list"
  Attrs :: "Attr list"
  visited :: bool
  old :: Entity
  hdl :: "'a intentHandler"

text \<open>
  \<^verbatim>\<open>type prenode struct { ntt Entity; scp int; hdl intentHandler }\<close>. The handler field is
  called \<open>phdl\<close> here, since \<open>hdl\<close> is the field of \<open>Node\<close>. A span is a length, never
  negative, and is kept as a natural number.
\<close>

record 'a prenode =
  ntt :: Entity
  scp :: nat
  phdl :: "'a intentHandler"

record 'a etree =
  g0 :: "'a prenode list"
  g1 :: "'a prenode list"

datatype error =
    CycleDetected
  | EmptyTagName
  | NilChild
  | NilDereference
  | TooManyEntities
  | IndexOutOfRange
  | SliceBeyondLength
  | EntityNotFound
  | ReusingInvalidEntity
  | InvalidAddress
  | OutOfFuel

section \<open>Node construction (render.go)\<close>

definition GetNode :: "string \<Rightarrow> 'a Node" where
  "GetNode tagname =
     \<lparr>Entity = 0, TagName = tagname, Classes = [], Text = [], Focused = False,
      Children = [], Attrs = [], visited = False, old = 0, hdl = no_handler\<rparr>"

definition SetText :: "string \<Rightarrow> 'a Node \<Rightarrow> 'a Node" where
  "SetText text n = n\<lparr>Text := text\<rparr>"

definition AddChildren :: "addr option list \<Rightarrow> 'a Node \<Rightarrow> 'a Node" where
  "AddChildren cs n = n\<lparr>Children := Children n @ cs\<rparr>"

text \<open>\<^verbatim>\<open>strings.Join(elems, sep)\<close>.\<close>

fun Join :: "string list \<Rightarrow> string \<Rightarrow> string" where
  "Join [] sep = []"
| "Join [s] sep = s"
| "Join (s # t # ss) sep = s @ sep @ Join (t # ss) sep"

definition AddClasses :: "string list \<Rightarrow> 'a Node \<Rightarrow> 'a Node" where
  "AddClasses cls n =
     (let c = Join cls '' '' in
      if Classes n = [] then n\<lparr>Classes := c\<rparr>
      else n\<lparr>Classes := Classes n @ '' '' @ c\<rparr>)"

section \<open>Entity counter (engine.go)\<close>

text \<open>
  \<^verbatim>\<open>func (c *Counter) Inc() Entity { *c += 2; return Entity(*c) }\<close>: the value returned
  and the counter after the call. Addition on \<open>32 word\<close> wraps as \<^verbatim>\<open>uint32\<close> does.
\<close>

definition Inc :: "Counter \<Rightarrow> Entity \<times> Counter" where
  "Inc c = (c + 2, c + 2)"

section \<open>Mutation program (render.go)\<close>

definition OpTerm :: byte where "OpTerm = 0"
definition OpCreateElement :: byte where "OpCreateElement = 1"
definition OpSetClass :: byte where "OpSetClass = 2"
definition OpSetID :: byte where "OpSetID = 3"
definition OpSetAttr :: byte where "OpSetAttr = 4"
definition OpAddText :: byte where "OpAddText = 5"
definition OpReuse :: byte where "OpReuse = 6"
definition OpReID :: byte where "OpReID = 7"
definition OpNext :: byte where "OpNext = 8"

lemmas Op_defs = OpTerm_def OpCreateElement_def OpSetClass_def OpSetID_def OpSetAttr_def
  OpAddText_def OpReuse_def OpReID_def OpNext_def

text \<open>\<^verbatim>\<open>binary.BigEndian.AppendUint16(b, v)\<close>: the high byte, then the low byte.\<close>

definition AppendUint16 :: "XAS \<Rightarrow> 16 word \<Rightarrow> XAS" where
  "AppendUint16 b v = b @ [ucast (drop_bit 8 v), ucast v]"

text \<open>
  \<^verbatim>\<open>AddInstr\<close>: the opcode, then for every operand \<^verbatim>\<open>uint16(len(val[i]))\<close> (a conversion
  that keeps the low 16 bits of the length) and all the bytes of the operand.
\<close>

definition AddInstr :: "XAS \<Rightarrow> byte \<Rightarrow> string list \<Rightarrow> XAS" where
  "AddInstr vm code val =
     foldl (\<lambda>vm s. AppendUint16 vm (word_of_nat (length s)) @ map of_char s) (vm @ [code]) val"

text \<open>\<^verbatim>\<open>strconv.FormatUint(uint64(e), 10)\<close>: the decimal digits of an unsigned number.\<close>

definition digit :: "nat \<Rightarrow> char" where
  "digit d = ''0123456789'' ! d"

function FormatUint :: "nat \<Rightarrow> string" where
  "FormatUint n = (if n < 10 then [digit n] else FormatUint (n div 10) @ [digit (n mod 10)])"
  by pat_completeness auto
termination
  by (relation "measure id") auto

declare FormatUint.simps [simp del]

definition fmt :: "Entity \<Rightarrow> string" where
  "fmt e = FormatUint (unat e)"

section \<open>Entity tree (render.go)\<close>

text \<open>
  \<^verbatim>\<open>ngen\<close> swaps the buffers and truncates the new current one to length zero
  (\<^verbatim>\<open>clear\<close> of a slice of length zero clears nothing).
\<close>

definition ngen :: "'a etree \<Rightarrow> 'a etree" where
  "ngen t = \<lparr>g0 = [], g1 = g0 t\<rparr>"

definition add :: "Entity \<Rightarrow> 'a etree \<Rightarrow> error + (nat \<times> 'a etree)" where
  "add nt t =
     (if nt < 10240
      then Inr (length (g0 t), t\<lparr>g0 := g0 t @ [\<lparr>ntt = nt, scp = 0, phdl = no_handler\<rparr>]\<rparr>)
      else Inl TooManyEntities)"

definition addHandler :: "'a intentHandler \<Rightarrow> 'a etree \<Rightarrow> error + 'a etree" where
  "addHandler h t =
     (if g0 t = [] then Inl IndexOutOfRange
      else Inr (t\<lparr>g0 := (g0 t)[length (g0 t) - 1 := (g0 t ! (length (g0 t) - 1))\<lparr>phdl := h\<rparr>]\<rparr>))"

definition closeScope :: "nat \<Rightarrow> 'a etree \<Rightarrow> error + 'a etree" where
  "closeScope of' t =
     (if of' < length (g0 t)
      then Inr (t\<lparr>g0 := (g0 t)[of' := (g0 t ! of')\<lparr>scp := length (g0 t) - of'\<rparr>]\<rparr>)
      else Inl IndexOutOfRange)"

text \<open>\<^verbatim>\<open>locate\<close> returns the first index of the entity in the previous generation, or -1.\<close>

fun locate_from :: "'a prenode list \<Rightarrow> Entity \<Rightarrow> int \<Rightarrow> int" where
  "locate_from [] nt i = - 1"
| "locate_from (r # rs) nt i = (if ntt r = nt then i else locate_from rs nt (i + 1))"

definition locate :: "'a etree \<Rightarrow> Entity \<Rightarrow> int" where
  "locate t nt = locate_from (g1 t) nt 0"

text \<open>
  \<^verbatim>\<open>children\<close>: nil when the entity is absent, otherwise the slice
  \<^verbatim>\<open>t.g1[i : i+t.g1[i].scp]\<close>. The buffers are modelled by their elements up to their
  length; their capacity and the stale records beyond the length are not. In Go a slice
  that ends beyond the length panics only beyond the capacity and otherwise returns
  stale records. The model does not decide between the two: it answers
  \<open>SliceBeyondLength\<close>, an outcome outside the model from which no theorem draws a
  conclusion. It arises only when a span of the previous generation reaches beyond its
  records.
\<close>

definition children :: "'a etree \<Rightarrow> Entity \<Rightarrow> error + 'a prenode list" where
  "children t nt =
     (let i = locate t nt in
      if i = - 1 then Inr []
      else if nat i + scp (g1 t ! nat i) \<le> length (g1 t)
           then Inr (take (scp (g1 t ! nat i)) (drop (nat i) (g1 t)))
           else Inl SliceBeyondLength)"

text \<open>
  \<^verbatim>\<open>parents\<close>: the records of the previous generation whose span reaches beyond the
  index of the entity, from that index down to 0.
\<close>

definition parents :: "'a etree \<Rightarrow> Entity \<Rightarrow> error + 'a prenode list" where
  "parents t nt =
     (let i = locate t nt in
      if i = - 1 then Inl EntityNotFound
      else Inr (map (\<lambda>j. g1 t ! j)
                 (filter (\<lambda>j. scp (g1 t ! j) + j > nat i) (rev [0 ..< Suc (nat i)]))))"

text \<open>
  The renaming loop of \<^verbatim>\<open>reuse\<close>, over the records \<^verbatim>\<open>t.g0[start:]\<close>: record 0 takes the
  identity \<open>to\<close>, every other one a new identity from the counter; the callback \<open>it\<close> runs
  when the new identity differs from the recorded one. The callback of the source is a
  closure that updates a captured variable; here it transforms a value \<open>acc\<close>.
\<close>

fun rename_loop ::
  "nat \<Rightarrow> Entity \<Rightarrow> 'a prenode list \<Rightarrow> Counter \<Rightarrow> (Entity \<Rightarrow> Entity \<Rightarrow> 'v \<Rightarrow> 'v) \<Rightarrow> 'v
     \<Rightarrow> 'a prenode list \<times> Counter \<times> 'v" where
  "rename_loop i to [] c it acc = ([], c, acc)"
| "rename_loop i to (r # rs) c it acc =
     (let (nt, c1) = (if i = 0 then (to, c) else Inc c);
          acc1 = (if nt \<noteq> ntt r then it (ntt r) nt acc else acc);
          (rs', c2, acc2) = rename_loop (Suc i) to rs c1 it acc1
      in (r\<lparr>ntt := nt\<rparr> # rs', c2, acc2))"

definition reuse ::
  "Entity \<Rightarrow> Entity \<Rightarrow> Counter \<Rightarrow> (Entity \<Rightarrow> Entity \<Rightarrow> 'v \<Rightarrow> 'v) \<Rightarrow> 'v \<Rightarrow> 'a etree
     \<Rightarrow> error + ('a etree \<times> Counter \<times> 'v)" where
  "reuse from to c it acc t =
     (let start = length (g0 t) in
      if \<not> (int start \<noteq> - 1) then Inl ReusingInvalidEntity
      else case children t from of
             Inl e \<Rightarrow> Inl e
           | Inr cs \<Rightarrow>
               (let (rs, c', acc') = rename_loop 0 to cs c it acc
                in Inr (t\<lparr>g0 := g0 t @ rs\<rparr>, c', acc')))"

section \<open>Serializer (render.go)\<close>

text \<open>
  The state of a serialization pass: the store of nodes (a pointer is an index into it),
  the entity tree, the counter and the program written so far.
\<close>

type_synonym 'a heap = "'a Node list"
type_synonym 'a sstate = "'a heap \<times> 'a etree \<times> Counter \<times> XAS"

text \<open>A \<^verbatim>\<open>for ... range\<close> loop whose body can panic: the first panic ends the loop.\<close>

fun loop :: "('x \<Rightarrow> 's \<Rightarrow> error + 's) \<Rightarrow> 'x list \<Rightarrow> 's \<Rightarrow> error + 's" where
  "loop body [] s = Inr s"
| "loop body (x # xs) s = (case body x s of Inl e \<Rightarrow> Inl e | Inr s' \<Rightarrow> loop body xs s')"

text \<open>The \<^verbatim>\<open>"reuse"\<close> case of \<^verbatim>\<open>serialize\<close>.\<close>

definition serialize_reuse ::
  "'a Node \<Rightarrow> 'a etree \<Rightarrow> Counter \<Rightarrow> XAS \<Rightarrow> error + ('a etree \<times> Counter \<times> XAS)" where
  "serialize_reuse n t c vm =
     reuse (old n) (Entity n) c (\<lambda>from to vm. AddInstr vm OpReID [fmt from, fmt to])
       (AddInstr vm OpReuse [fmt (old n)]) t"

text \<open>
  The statements of the default case between the courtesy entity and the children:
  the entity record is opened (\<^verbatim>\<open>add\<close>, \<^verbatim>\<open>addHandler\<close>, \<^verbatim>\<open>OpSetID\<close>), then the attributes
  and the text are written. \<open>ent\<close> is \<^verbatim>\<open>n.Entity\<close> after the courtesy assignment.
\<close>

definition open_entity ::
  "'a Node \<Rightarrow> Entity \<Rightarrow> 'a etree \<Rightarrow> XAS \<Rightarrow> error + (nat \<times> 'a etree \<times> XAS)" where
  "open_entity n ent t vm =
     (if ent \<noteq> 0 then
        (case add ent t of
           Inl e \<Rightarrow> Inl e
         | Inr (idx, t1) \<Rightarrow>
             (case (if Some_hdl (hdl n) then addHandler (hdl n) t1 else Inr t1) of
                Inl e \<Rightarrow> Inl e
              | Inr t2 \<Rightarrow> Inr (idx, t2, AddInstr vm OpSetID [fmt ent])))
      else Inr (0, t, vm))"

text \<open>
  The first statements of the default case: \<^verbatim>\<open>OpCreateElement\<close>, then \<^verbatim>\<open>OpSetClass\<close> when
  the class string is not empty; and the courtesy entity for a node with handlers and
  no entity (the entity of the node afterwards, and the counter).
\<close>

definition create_element :: "'a Node \<Rightarrow> XAS \<Rightarrow> XAS" where
  "create_element n vm =
     (let vm1 = AddInstr vm OpCreateElement [TagName n]
      in if length (Classes n) > 0 then AddInstr vm1 OpSetClass [Classes n] else vm1)"

definition courtesy :: "'a Node \<Rightarrow> Counter \<Rightarrow> Entity \<times> Counter" where
  "courtesy n c = (if Entity n = 0 \<and> Some_hdl (hdl n) then Inc c else (Entity n, c))"

definition attrs_text :: "'a Node \<Rightarrow> XAS \<Rightarrow> XAS" where
  "attrs_text n vm =
     (let vm1 = foldl (\<lambda>vm a. AddInstr vm OpSetAttr [Name a, Value a]) vm (Attrs n)
      in if Text n \<noteq> [] then AddInstr vm1 OpAddText [Text n] else vm1)"

definition close_entity :: "Entity \<Rightarrow> nat \<Rightarrow> 'a etree \<Rightarrow> error + 'a etree" where
  "close_entity ent idx t = (if ent \<noteq> 0 then closeScope idx t else Inr t)"

text \<open>
  \<^verbatim>\<open>serialize(n, tree, ctr, vm)\<close>. The recursion follows pointers of the store, so it is
  bounded by a fuel that decreases with the depth of the walk; \<open>OutOfFuel\<close> is not an
  outcome of the program. A nil pointer is dereferenced by \<^verbatim>\<open>n.visited\<close>. An address
  outside the store does not exist in Go; the model answers \<open>InvalidAddress\<close>.
\<close>

primrec serialize :: "nat \<Rightarrow> addr option \<Rightarrow> 'a sstate \<Rightarrow> error + 'a sstate" where
  "serialize 0 p s = Inl OutOfFuel"
| "serialize (Suc f) p s =
     (case s of (h, t, c, vm) \<Rightarrow>
      (case p of
         None \<Rightarrow> Inl NilDereference
       | Some a \<Rightarrow>
          if \<not> a < length h then Inl InvalidAddress
          else if visited (h ! a) then Inl CycleDetected
          else
            (let n = h ! a; h1 = h[a := n\<lparr>visited := True\<rparr>] in
             if TagName n = [] then Inl EmptyTagName
             else if TagName n = ''nothing'' then
               loop (\<lambda>c s. if c = None then Inl NilChild else serialize f c s)
                 (Children n) (h1, t, c, vm)
             else if TagName n = ''reuse'' then
               (case serialize_reuse n t c vm of
                  Inl e \<Rightarrow> Inl e
                | Inr (t', c', vm') \<Rightarrow> Inr (h1, t', c', vm'))
             else
               (let (ent, c1) = courtesy n c;
                    h2 = h1[a := (h1 ! a)\<lparr>Entity := ent\<rparr>]
                in case open_entity n ent t (create_element n vm) of
                     Inl e \<Rightarrow> Inl e
                   | Inr (idx, t1, vm3) \<Rightarrow>
                       (case loop (serialize f) (Children n) (h2, t1, c1, attrs_text n vm3) of
                          Inl e \<Rightarrow> Inl e
                        | Inr (h3, t2, c2, vm4) \<Rightarrow>
                            (case close_entity ent idx t2 of
                               Inl e \<Rightarrow> Inl e
                             | Inr t3 \<Rightarrow> Inr (h3, t3, c2, AddInstr vm4 OpNext [])))))))"

section \<open>Instructions and their decoding\<close>

text \<open>
  The instructions of a mutation program, each written by one call of \<^verbatim>\<open>AddInstr\<close> with
  its opcode and its string operands.
\<close>

datatype instr =
    CreateElement string
  | SetClass string
  | SetID string
  | SetAttr string string
  | AddText string
  | Reuse string
  | ReID string string
  | Next
  | Term

fun emit :: "XAS \<Rightarrow> instr \<Rightarrow> XAS" where
  "emit vm (CreateElement tag) = AddInstr vm OpCreateElement [tag]"
| "emit vm (SetClass cls) = AddInstr vm OpSetClass [cls]"
| "emit vm (SetID e) = AddInstr vm OpSetID [e]"
| "emit vm (SetAttr k v) = AddInstr vm OpSetAttr [k, v]"
| "emit vm (AddText txt) = AddInstr vm OpAddText [txt]"
| "emit vm (Reuse e) = AddInstr vm OpReuse [e]"
| "emit vm (ReID from to) = AddInstr vm OpReID [from, to]"
| "emit vm Next = AddInstr vm OpNext []"
| "emit vm Term = AddInstr vm OpTerm []"

definition program :: "instr list \<Rightarrow> XAS" where
  "program is = foldl emit [] is"

text \<open>
  \<^verbatim>\<open>loadString\<close> of the interpreter (bootstrap.ts, \<^verbatim>\<open>buildView\<close>): a big-endian 16-bit
  length, then that many bytes; the result is the string and the bytes that follow it.
  Reading beyond the end of the program fails.
\<close>

fun loadString :: "XAS \<Rightarrow> (string \<times> XAS) option" where
  "loadString (hi # lo # bs) =
     (let len = unat (push_bit 8 (ucast hi :: 16 word) OR ucast lo) in
      if len \<le> length bs then Some (map (\<lambda>b. char_of (unat b)) (take len bs), drop len bs) else None)"
| "loadString bs = None"

text \<open>
  The interpreter's loop (bootstrap.ts, \<^verbatim>\<open>buildView\<close>): one opcode byte, then the strings
  of that opcode read by \<^verbatim>\<open>loadString\<close>; the terminate opcode ends the run, an opcode
  that no case of the \<^verbatim>\<open>switch\<close> matches is skipped, and running off the end of the
  program without terminate is an error. \<open>decode\<close> gives the instructions read and the
  bytes left after terminate. Every step reads at least one byte, so the number of steps
  is bounded by the length of the program.
\<close>

fun loadStrings :: "nat \<Rightarrow> XAS \<Rightarrow> (string list \<times> XAS) option" where
  "loadStrings 0 bs = Some ([], bs)"
| "loadStrings (Suc n) bs =
     (case loadString bs of
        None \<Rightarrow> None
      | Some (s, r) \<Rightarrow>
          (case loadStrings n r of None \<Rightarrow> None | Some (ss, r') \<Rightarrow> Some (s # ss, r')))"

definition operands :: "byte \<Rightarrow> nat" where
  "operands op =
     (if op = OpCreateElement \<or> op = OpSetClass \<or> op = OpSetID \<or> op = OpAddText \<or> op = OpReuse
      then 1
      else if op = OpSetAttr \<or> op = OpReID then 2 else 0)"

fun instr_of :: "byte \<Rightarrow> string list \<Rightarrow> instr list" where
  "instr_of op [s] =
     (if op = OpCreateElement then [CreateElement s]
      else if op = OpSetClass then [SetClass s]
      else if op = OpSetID then [SetID s]
      else if op = OpAddText then [AddText s]
      else if op = OpReuse then [Reuse s]
      else [])"
| "instr_of op [s1, s2] =
     (if op = OpSetAttr then [SetAttr s1 s2] else if op = OpReID then [ReID s1 s2] else [])"
| "instr_of op ss = (if op = OpNext \<and> ss = [] then [Next] else [])"

primrec decode_steps :: "nat \<Rightarrow> XAS \<Rightarrow> (instr list \<times> XAS) option" where
  "decode_steps 0 bs = None"
| "decode_steps (Suc n) bs =
     (case bs of
        [] \<Rightarrow> None
      | op # bs' \<Rightarrow>
          if op = OpTerm then Some ([Term], bs')
          else (case loadStrings (operands op) bs' of
                  None \<Rightarrow> None
                | Some (ss, r) \<Rightarrow>
                    (case decode_steps n r of
                       None \<Rightarrow> None
                     | Some (is, rest) \<Rightarrow> Some (instr_of op ss @ is, rest))))"

definition decode :: "XAS \<Rightarrow> (instr list \<times> XAS) option" where
  "decode bs = decode_steps (length bs) bs"

section \<open>Render cycle driver (engine.go, context.go)\<close>

text \<open>
  \<^verbatim>\<open>type Context struct { ng *Engine; vx *vctx }\<close>: \<open>ng\<close> tells whether the engine pointer
  is set, \<open>vx\<close> is the application state behind the pointer (\<open>None\<close> for nil).
  \<^verbatim>\<open>NoAction\<close> is the zero context. An \<^verbatim>\<open>Action\<close> maps a context to a context.
\<close>

record 's Context =
  ng :: bool
  vx :: "'s option"

definition NoAction :: "'s Context" where
  "NoAction = \<lparr>ng = False, vx = None\<rparr>"

type_synonym 's Action = "'s Context \<Rightarrow> 's Context"

text \<open>
  Modelled from the spec: the declaration of \<^verbatim>\<open>CallFrame\<close> is not among the sources; the
  fields are those that \<^verbatim>\<open>ReactToIntent\<close> and \<^verbatim>\<open>JSUpdate\<close> use for dispatch (entity,
  interaction type, generation stamp).
\<close>

record CallFrame =
  cfEntity :: Entity
  cfIntentType :: nat
  cfGen :: int

text \<open>
  \<^verbatim>\<open>type Engine struct\<close>, the fields of the render cycle. The field \<^verbatim>\<open>g0 *vctx\<close> is \<open>vx0\<close>
  here. \<open>Root\<close> is \<^verbatim>\<open>Root.Build\<close>: from the context and the entity counter it gives the
  store of the nodes it allocated, the root pointer and the counter after the entities
  it minted.
\<close>

record 's Engine =
  buf :: XAS
  cnt :: Counter
  et :: "'s Action etree"
  gen :: int
  vx0 :: "'s option"
  frame :: CallFrame
  Root :: "'s Context \<Rightarrow> Counter \<Rightarrow> 's Action heap \<times> addr option \<times> Counter"

definition noActionRandEnabled :: bool where
  "noActionRandEnabled = False"

text \<open>\<^verbatim>\<open>randPick\<close>; \<open>r\<close> is the value of \<^verbatim>\<open>rand.Uint32()\<close>.\<close>

definition randPick :: "32 word \<Rightarrow> bool" where
  "randPick r = (if \<not> noActionRandEnabled then False else r AND 0xF = 0)"

text \<open>
  \<^verbatim>\<open>turncrank\<close>. The action runs on the engine and the context (the closure of
  \<^verbatim>\<open>ReactToIntent\<close> writes the call frame of the engine). The result is the engine after
  the cycle and the program handed to the consumer (\<open>None\<close> for nil); a panic leaves the
  function. The walk is given more fuel than the store has nodes.
\<close>

definition turncrank ::
  "32 word \<Rightarrow> ('s Engine \<Rightarrow> 's Context \<Rightarrow> error + 's Engine \<times> 's Context) \<Rightarrow> 's Engine
     \<Rightarrow> error + 's Engine \<times> XAS option" where
  "turncrank rnd act e =
     (case act e \<lparr>ng = True, vx = vx0 e\<rparr> of
        Inl err \<Rightarrow> Inl err
      | Inr (e1, ctx) \<Rightarrow>
          if ctx = NoAction \<and> \<not> randPick rnd then Inr (e1, None)
          else
            (let ctx1 = (if ctx = NoAction then \<lparr>ng = True, vx = vx0 e1\<rparr> else ctx);
                 (h, nd, c) = Root e1 ctx1 (cnt e1)
             in case serialize (Suc (length h)) nd (h, et e1, c, []) of
                  Inl err \<Rightarrow> Inl err
                | Inr (h', t, c', vm) \<Rightarrow>
                    (let b = AddInstr vm OpTerm []
                     in Inr (e1\<lparr>buf := b, vx0 := vx ctx1, et := ngen t, gen := gen e1 + 1,
                                cnt := word_of_int ((gen e1 + 1) AND 1)\<rparr>, Some b))))"

text \<open>
  The action that \<^verbatim>\<open>ReactToIntent\<close> sends to the driver (the closure \<^verbatim>\<open>do\<close>).
\<close>

fun first_handler :: "nat \<Rightarrow> 'a prenode list \<Rightarrow> error + 'a intentHandler" where
  "first_handler it [] = Inr no_handler"
| "first_handler it (nt # nts) =
     (if \<not> it < length (phdl nt) then Inl IndexOutOfRange
      else if phdl nt ! it \<noteq> None then Inr (phdl nt)
      else first_handler it nts)"

definition ReactToIntent_do ::
  "CallFrame \<Rightarrow> 's Engine \<Rightarrow> 's Context \<Rightarrow> error + 's Engine \<times> 's Context" where
  "ReactToIntent_do cf e ctx =
     (if cfGen cf \<noteq> gen e then Inr (e, ctx)
      else
        (let e1 = e\<lparr>frame := cf\<rparr> in
         case parents (et e1) (cfEntity cf) of
           Inl err \<Rightarrow> Inl err
         | Inr ps \<Rightarrow>
             (case first_handler (cfIntentType cf) ps of
                Inl err \<Rightarrow> Inl err
              | Inr h \<Rightarrow>
                  if \<not> cfIntentType cf < length h then Inl IndexOutOfRange
                  else (case h ! cfIntentType cf of
                          None \<Rightarrow> Inr (e1, NoAction)
                        | Some a \<Rightarrow> Inr (e1, a ctx)))))"

section \<open>Server-side rendering (render.go)\<close>


section \<open>Relations between the states of a pass\<close>

text \<open>
  What a pass may do to a node: nothing, or visit it (the flag goes from false to true
  and the entity may be assigned). \<open>sstep\<close> relates two states of a pass: nodes change
  only in that way, the previous generation is untouched, the current generation and the
  program only grow, and the counter keeps its parity. \<open>unvisited\<close> counts the nodes of
  the store whose flag is not set.
\<close>

definition node_step :: "'a Node \<Rightarrow> 'a Node \<Rightarrow> bool" where
  "node_step n n' \<longleftrightarrow> n' = n \<or> (\<not> visited n \<and> (\<exists>e. n' = n\<lparr>visited := True, Entity := e\<rparr>))"

definition sstep :: "'a sstate \<Rightarrow> 'a sstate \<Rightarrow> bool" where
  "sstep s s' \<longleftrightarrow>
     (case s of (h, t, c, vm) \<Rightarrow> case s' of (h', t', c', vm') \<Rightarrow>
        list_all2 node_step h h' \<and> g1 t' = g1 t \<and> (\<exists>xs. g0 t' = g0 t @ xs)
        \<and> (\<exists>ys. vm' = vm @ ys) \<and> (even c' \<longleftrightarrow> even c))"


text \<open>
  Well-formed spans of a preorder record list: every span is positive, stays inside the
  list, and every record inside a span has its own span inside it (the spans are a
  forest in preorder). \<open>spans_step\<close> relates two states of a pass: the previous
  generation is untouched and, when its spans are well formed, the current generation has
  grown by a list with well-formed spans.
\<close>

definition nested :: "nat list \<Rightarrow> bool" where
  "nested ss \<longleftrightarrow>
     (\<forall>i < length ss. 0 < ss ! i \<and> i + ss ! i \<le> length ss
        \<and> (\<forall>j. i < j \<and> j < i + ss ! i \<longrightarrow> j + ss ! j \<le> i + ss ! i))"

definition spans_ok :: "'a prenode list \<Rightarrow> bool" where
  "spans_ok g \<longleftrightarrow> nested (map scp g)"

definition spans_step :: "'a sstate \<Rightarrow> 'a sstate \<Rightarrow> bool" where
  "spans_step s s' \<longleftrightarrow>
     (case s of (h, t, c, vm) \<Rightarrow> case s' of (h', t', c', vm') \<Rightarrow>
        g1 t' = g1 t \<and> (spans_ok (g1 t) \<longrightarrow> (\<exists>xs. g0 t' = g0 t @ xs \<and> spans_ok xs)))"

text \<open>
  An engine in generation 1 whose root widget builds a single \<^verbatim>\<open><div>\<close>, and a call
  frame stamped with generation 0.
\<close>

definition div_engine :: "nat Engine" where
  "div_engine =
     \<lparr>buf = [], cnt = 1, et = \<lparr>g0 = [], g1 = []\<rparr>, gen = 1, vx0 = Some 0,
      frame = \<lparr>cfEntity = 0, cfIntentType = 0, cfGen = 0\<rparr>,
      Root = (\<lambda>ctx c. ([GetNode ''div''], Some 0, c))\<rparr>"

definition stale_frame :: CallFrame where
  "stale_frame = \<lparr>cfEntity = 3, cfIntentType = 1, cfGen = 0\<rparr>"

text \<open>
  The identities that \<open>n\<close> successive calls of \<^verbatim>\<open>Inc\<close> return from a counter \<open>c\<close>.
\<close>

fun fresh_ids :: "Counter \<Rightarrow> nat \<Rightarrow> Entity list" where
  "fresh_ids c 0 = []"
| "fresh_ids c (Suc n) = (c + 2) # fresh_ids (c + 2) n"

section \<open>Properties\<close>

subsection \<open>AddClasses\<close>

text \<open>
  C8. The documentation of \<^verbatim>\<open>AddClasses\<close> says that classes already present are not
  modified and that empty classes are ignored. The code appends unconditionally: adding
  the token \<open>flex\<close> to a node whose class string is \<open>flex\<close> gives \<open>flex flex\<close>, and adding
  no token at all to that node gives \<open>flex\<close> followed by a space.
\<close>

theorem AddClasses_appends_unconditionally:
  "Classes (AddClasses [''flex''] (AddClasses [''flex''] (GetNode ''div''))) = ''flex flex''
   \<and> Classes (AddClasses [] (AddClasses [''flex''] (GetNode ''div''))) = ''flex ''
   \<and> Classes (AddClasses [''''] (AddClasses [''flex''] (GetNode ''div''))) = ''flex ''"
  by (simp add: AddClasses_def GetNode_def)

lemma Some_hdl_no_handler [simp]: "\<not> Some_hdl no_handler"
  by (simp add: Some_hdl_def no_handler_def list_ex_iff)

subsection \<open>A first program\<close>

text \<open>
  C7. The tree of \<^verbatim>\<open><div class="flex">hi<button></button></div>\<close>, built as the parser
  builds it, without entity or handler: serialization followed by the terminate
  instruction of the driver writes exactly the 30 bytes below, leaves the entity tree
  empty and does not touch the counter. Read by the interpreter, these bytes are
  create-element div, set-class flex, add-text hi, create-element button, advance,
  advance, terminate, with nothing left over: there is no set-id instruction.
\<close>

theorem serialize_div_flex_hi_button:
  "map_sum id (\<lambda>(h, t, c, vm). (t, c, AddInstr vm OpTerm []))
     (serialize (Suc (Suc f)) (Some 0)
        ([SetText ''hi'' (AddClasses [''flex''] (AddChildren [Some 1] (GetNode ''div''))),
          GetNode ''button''],
         \<lparr>g0 = [], g1 = []\<rparr>, 0, []))
   = Inr (\<lparr>g0 = [], g1 = []\<rparr>, 0,
          [1, 0, 3, 100, 105, 118, 2, 0, 4, 102, 108, 101, 120, 5, 0, 2, 104, 105,
           1, 0, 6, 98, 117, 116, 116, 111, 110, 8, 8, 0])
   \<and> decode [1, 0, 3, 100, 105, 118, 2, 0, 4, 102, 108, 101, 120, 5, 0, 2, 104, 105,
             1, 0, 6, 98, 117, 116, 116, 111, 110, 8, 8, 0]
       = Some ([CreateElement ''div'', SetClass ''flex'', AddText ''hi'',
                CreateElement ''button'', Next, Next, Term], [])"
  by (simp add: GetNode_def AddChildren_def AddClasses_def SetText_def Let_def
      create_element_def courtesy_def open_entity_def attrs_text_def close_entity_def
      AddInstr_def AppendUint16_def decode_def operands_def Op_defs char_of_eq_iff)

subsection \<open>Wire format\<close>

text \<open>
  C6. \<^verbatim>\<open>AddInstr\<close> writes \<^verbatim>\<open>uint16(len(s))\<close> and then every byte of \<open>s\<close>. For a text of
  65536 bytes the length written is 0 and 65536 bytes follow: the interpreter's
  \<^verbatim>\<open>loadString\<close> reads an empty string and finds the whole text where the next opcode
  should be.
\<close>

theorem AddInstr_truncates_length:
  "AddInstr [] OpAddText [replicate 65536 (CHR ''a'')] = [5, 0, 0] @ replicate 65536 97
   \<and> loadString (drop 1 (AddInstr [] OpAddText [replicate 65536 (CHR ''a'')]))
       = Some ([], replicate 65536 97)"
  by (simp add: AddInstr_def AppendUint16_def OpAddText_def)

subsection \<open>Reuse of a subtree\<close>

lemma reuse_absent:
  "locate t from = - 1 \<Longrightarrow> reuse from to c it acc t = Inr (t, c, acc)"
  by (simp add: reuse_def children_def)

lemma reuse_assert_never_fires: "reuse from to c it acc t \<noteq> Inl ReusingInvalidEntity"
  by (auto simp add: reuse_def children_def Let_def split: sum.splits prod.splits)

text \<open>
  C10. A \<^verbatim>\<open>reuse\<close> node (not yet visited) whose source entity is absent from the previous
  generation is serialized without any panic: the reuse instruction naming the absent
  entity is written, the entity tree and the counter are unchanged (no record appended,
  no callback run), and the assertion \<^verbatim>\<open>start != -1\<close> of \<^verbatim>\<open>etree.reuse\<close> never fails,
  for any arguments.
\<close>

theorem serialize_reuse_absent_entity:
  assumes "a < length h" and "\<not> visited (h ! a)" and "TagName (h ! a) = ''reuse''"
    and "locate t (old (h ! a)) = - 1"
  shows "serialize (Suc f) (Some a) (h, t, c, vm)
           = Inr (h[a := (h ! a)\<lparr>visited := True\<rparr>], t, c,
                  AddInstr vm OpReuse [fmt (old (h ! a))])
         \<and> (\<forall>to' c' acc it. reuse (old (h ! a)) to' c' it acc t = Inr (t, c', acc))
         \<and> (\<forall>from to' c' acc it t'. reuse from to' c' it (acc :: XAS) (t' :: 'a etree) \<noteq> Inl ReusingInvalidEntity)"
  using assms
  by (simp add: Let_def serialize_reuse_def reuse_absent reuse_assert_never_fires)

theorem serialize_reuse_absent_entity_witness:
  "serialize (Suc 0) (Some 0)
     ([(GetNode ''reuse'' :: unit Node)\<lparr>old := 5, Entity := 2\<rparr>],
      \<lparr>g0 = [], g1 = [\<lparr>ntt = 3, scp = 1, phdl = []\<rparr>]\<rparr>, 2, [])
   = Inr ([(GetNode ''reuse'')\<lparr>old := 5, Entity := 2, visited := True\<rparr>],
          \<lparr>g0 = [], g1 = [\<lparr>ntt = 3, scp = 1, phdl = []\<rparr>]\<rparr>, 2,
          program [Reuse ''5''])"
proof -
  let ?h = "[(GetNode ''reuse'' :: unit Node)\<lparr>old := 5, Entity := 2\<rparr>]"
  let ?t = "\<lparr>g0 = [], g1 = [\<lparr>ntt = 3, scp = 1, phdl = [] :: unit intentHandler\<rparr>]\<rparr>"
  have a: "0 < length ?h" by simp
  have b: "\<not> visited (?h ! 0)" by (simp add: GetNode_def)
  have c: "TagName (?h ! 0) = ''reuse''" by (simp add: GetNode_def)
  have d: "locate ?t (old (?h ! 0)) = - 1" by (simp add: locate_def)
  from serialize_reuse_absent_entity [OF a b c d, of 0 2 "[]"]
  have "serialize (Suc 0) (Some 0) (?h, ?t, 2, [])
          = Inr (?h[0 := (?h ! 0)\<lparr>visited := True\<rparr>], ?t, 2,
                 AddInstr [] OpReuse [fmt (old (?h ! 0))])"
    by (rule conjunct1)
  then show ?thesis
    by (simp add: program_def fmt_def FormatUint.simps digit_def del: serialize.simps)
qed

lemma rename_loop_Suc:
  "rename_loop (Suc i) to rs c it acc =
     (map (\<lambda>(r, nt). r\<lparr>ntt := nt\<rparr>) (zip rs (fresh_ids c (length rs))),
      c + 2 * of_nat (length rs),
      foldl (\<lambda>a (ol, nt). it ol nt a) acc
        (filter (\<lambda>(ol, nt). nt \<noteq> ol) (zip (map ntt rs) (fresh_ids c (length rs)))))"
proof (induction rs arbitrary: i c acc)
  case Nil
  show ?case by simp
next
  case (Cons r rs)
  show ?case
    by (simp add: Cons.IH Inc_def Let_def algebra_simps)
qed

lemma rename_loop_0:
  "rename_loop 0 to (r # rs) c it acc =
     (map (\<lambda>(r, nt). r\<lparr>ntt := nt\<rparr>) (zip (r # rs) (to # fresh_ids c (length rs))),
      c + 2 * of_nat (length rs),
      foldl (\<lambda>a (ol, nt). it ol nt a) acc
        (filter (\<lambda>(ol, nt). nt \<noteq> ol) (zip (map ntt (r # rs)) (to # fresh_ids c (length rs)))))"
  by (simp add: rename_loop_Suc Let_def)

lemma fresh_ids_length [simp]: "length (fresh_ids c n) = n"
  by (induction n arbitrary: c) auto

lemma fresh_ids_nth: "j < n \<Longrightarrow> fresh_ids c n ! j = c + 2 * of_nat (Suc j)"
proof (induction n arbitrary: c j)
  case 0
  then show ?case by simp
next
  case (Suc n)
  then show ?case by (cases j) (auto simp add: algebra_simps)
qed

lemma fresh_ids_parity: "x \<in> set (fresh_ids c n) \<Longrightarrow> even x \<longleftrightarrow> even c"
proof (induction n arbitrary: c)
  case 0
  then show ?case by simp
next
  case (Suc n)
  from Suc.prems have "x = c + 2 \<or> x \<in> set (fresh_ids (c + 2) n)" by simp
  then show ?case
  proof
    assume "x = c + 2"
    then show ?thesis by simp
  next
    assume "x \<in> set (fresh_ids (c + 2) n)"
    then have "even x \<longleftrightarrow> even (c + 2)" by (rule Suc.IH)
    then show ?thesis by simp
  qed
qed

lemma unat_fresh:
  assumes "unat c + 2 * n < 2 ^ 32"
  shows "unat ((c::32 word) + 2 * of_nat n) = unat c + 2 * n"
proof -
  have u: "unat (2 * of_nat n :: 32 word) = 2 * n"
    using unat_of_nat [where 'a = 32, of "2 * n"] assms by simp
  have "unat (c + 2 * of_nat n) = unat c + unat (2 * of_nat n :: 32 word)"
    using assms u by (subst unat_add_lem [THEN iffD1]) simp_all
  then show ?thesis using u by simp
qed

lemma fresh_ids_unat:
  "unat c + 2 * n < 2 ^ 32 \<Longrightarrow> j < n \<Longrightarrow> unat (fresh_ids c n ! j) = unat c + 2 * Suc j"
  using unat_fresh [of c "Suc j"] by (simp add: fresh_ids_nth)

lemma fresh_ids_distinct:
  assumes "unat c + 2 * n < 2 ^ 32"
  shows "distinct (fresh_ids c n)"
proof -
  have "\<And>i j. i < n \<Longrightarrow> j < n \<Longrightarrow> i \<noteq> j \<Longrightarrow> fresh_ids c n ! i \<noteq> fresh_ids c n ! j"
  proof
    fix i j assume a: "i < n" "j < n" "i \<noteq> j" "fresh_ids c n ! i = fresh_ids c n ! j"
    have ui: "unat (fresh_ids c n ! i) = unat c + 2 * Suc i"
      using assms a(1) by (rule fresh_ids_unat)
    have uj: "unat (fresh_ids c n ! j) = unat c + 2 * Suc j"
      using assms a(2) by (rule fresh_ids_unat)
    from ui uj a(4) have "unat c + 2 * Suc i = unat c + 2 * Suc j" by metis
    then show False using a(3) by simp
  qed
  then show ?thesis by (simp add: distinct_conv_nth)
qed

lemma fresh_ids_above:
  assumes "unat c + 2 * n < 2 ^ 32" and "x \<in> set (fresh_ids c n)"
  shows "unat c < unat x"
proof -
  from assms(2) obtain j where "j < n" "x = fresh_ids c n ! j"
    by (auto simp add: in_set_conv_nth)
  then show ?thesis using assms(1) by (simp add: fresh_ids_unat)
qed


lemma locate_from_found:
  "locate_from rs nt i \<noteq> - 1 \<Longrightarrow> 0 \<le> i \<Longrightarrow>
     i \<le> locate_from rs nt i \<and> locate_from rs nt i < i + int (length rs)
     \<and> ntt (rs ! nat (locate_from rs nt i - i)) = nt"
proof (induction rs arbitrary: i)
  case Nil
  then show ?case by simp
next
  case (Cons r rs)
  show ?case
  proof (cases "ntt r = nt")
    case True
    then show ?thesis by simp
  next
    case False
    with Cons.prems have n: "locate_from rs nt (i + 1) \<noteq> - 1" by simp
    from Cons.IH [OF n] Cons.prems(2)
    have ih: "i + 1 \<le> locate_from rs nt (i + 1)"
      "locate_from rs nt (i + 1) < i + 1 + int (length rs)"
      "ntt (rs ! nat (locate_from rs nt (i + 1) - (i + 1))) = nt" by auto
    have "nat (locate_from rs nt (i + 1) - i) = Suc (nat (locate_from rs nt (i + 1) - (i + 1)))"
      using ih(1) by simp
    then show ?thesis using False ih by simp
  qed
qed

lemma locate_found:
  "locate t nt \<noteq> - 1 \<Longrightarrow>
     nat (locate t nt) < length (g1 t) \<and> ntt (g1 t ! nat (locate t nt)) = nt"
  using locate_from_found [of "g1 t" nt 0] by (auto simp add: locate_def nat_less_iff)

lemma children_hd:
  assumes "children t from = Inr cs" and "cs \<noteq> []"
  shows "ntt (hd cs) = from"
proof -
  from assms have l: "locate t from \<noteq> - 1"
    by (auto simp add: children_def Let_def split: if_splits)
  with assms(1) have cs: "cs = take (scp (g1 t ! nat (locate t from))) (drop (nat (locate t from)) (g1 t))"
    by (auto simp add: children_def Let_def split: if_splits)
  from locate_found [OF l] have b: "nat (locate t from) < length (g1 t)"
    and n: "ntt (g1 t ! nat (locate t from)) = from" by auto
  from assms(2) cs have "0 < scp (g1 t ! nat (locate t from))" by (cases "scp (g1 t ! nat (locate t from))") auto
  then have "hd cs = g1 t ! nat (locate t from)"
    using b cs by (simp add: hd_drop_conv_nth)
  then show ?thesis using n by simp
qed

lemma map_ntt_rename:
  "length xs = length ys \<Longrightarrow> map ntt (map (\<lambda>(r, nt). r\<lparr>ntt := nt\<rparr>) (zip xs ys)) = ys"
  by (induction xs ys rule: list_induct2) auto

lemma map_scp_rename:
  "length xs = length ys \<Longrightarrow> map scp (map (\<lambda>(r, nt). r\<lparr>ntt := nt\<rparr>) (zip xs ys)) = map scp xs"
  by (induction xs ys rule: list_induct2) auto

lemma map_phdl_rename:
  "length xs = length ys \<Longrightarrow> map phdl (map (\<lambda>(r, nt). r\<lparr>ntt := nt\<rparr>) (zip xs ys)) = map phdl xs"
  by (induction xs ys rule: list_induct2) auto

lemma reuse_renames_shape:
  fixes t :: "'a etree" and it :: "Entity \<Rightarrow> Entity \<Rightarrow> 'v \<Rightarrow> 'v"
  assumes found: "children t from = Inr cs" "cs \<noteq> []"
  shows "\<exists>rs. reuse from to c it acc t
                 = Inr (t\<lparr>g0 := g0 t @ rs\<rparr>, c + 2 * of_nat (length cs - 1),
                        foldl (\<lambda>a (ol, nt). it ol nt a) acc
                          (filter (\<lambda>(ol, nt). nt \<noteq> ol) (zip (map ntt cs) (map ntt rs))))
             \<and> length rs = length cs
             \<and> map scp rs = map scp cs \<and> map phdl rs = map phdl cs
             \<and> ntt (rs ! 0) = to
             \<and> (\<forall>i. 0 < i \<and> i < length cs \<longrightarrow> ntt (rs ! i) = c + 2 * of_nat i)
             \<and> map ntt rs = to # fresh_ids c (length cs - 1)"
proof -
  from found(2) obtain r rs0 where cs: "cs = r # rs0" by (cases cs) auto
  define news where "news = to # fresh_ids c (length rs0)"
  define rs where "rs = map (\<lambda>(r, nt). r\<lparr>ntt := nt\<rparr>) (zip cs news)"
  have len: "length cs = length news" by (simp add: cs news_def)
  have ids: "map ntt rs = news" unfolding rs_def using len by (rule map_ntt_rename)
  have run: "reuse from to c it acc t
      = Inr (t\<lparr>g0 := g0 t @ rs\<rparr>, c + 2 * of_nat (length cs - 1),
             foldl (\<lambda>a (ol, nt). it ol nt a) acc
               (filter (\<lambda>(ol, nt). nt \<noteq> ol) (zip (map ntt cs) (map ntt rs))))"
    unfolding ids
    by (simp add: reuse_def found(1) cs rename_loop_0 rs_def news_def del: rename_loop.simps)
  have l: "length rs = length cs" by (simp add: rs_def len)
  have s: "map scp rs = map scp cs" unfolding rs_def using len by (rule map_scp_rename)
  have p: "map phdl rs = map phdl cs" unfolding rs_def using len by (rule map_phdl_rename)
  have nth: "\<And>i. i < length cs \<Longrightarrow> ntt (rs ! i) = news ! i"
  proof -
    fix i assume "i < length cs"
    then have "i < length rs" using l by simp
    then have "map ntt rs ! i = ntt (rs ! i)" by (rule nth_map)
    then show "ntt (rs ! i) = news ! i" using ids by simp
  qed
  have top: "ntt (rs ! 0) = to" using nth [of 0] by (simp add: cs news_def)
  have others: "\<forall>i. 0 < i \<and> i < length cs \<longrightarrow> ntt (rs ! i) = c + 2 * of_nat i"
  proof (intro allI impI)
    fix i assume i: "0 < i \<and> i < length cs"
    then obtain j where j: "i = Suc j" by (cases i) auto
    with i have "j < length rs0" by (simp add: cs)
    then have "news ! i = c + 2 * of_nat (Suc j)" by (simp add: news_def j fresh_ids_nth)
    then show "ntt (rs ! i) = c + 2 * of_nat i" using nth i j by simp
  qed
  have idsf: "map ntt rs = to # fresh_ids c (length cs - 1)"
    using ids by (simp add: news_def cs)
  show ?thesis
    by (intro exI [where x = rs] conjI) (fact run l s p top others idsf)+
qed

lemma reuse_renames_count:
  assumes found: "children t from = Inr cs" "cs \<noteq> []"
    and parity: "\<forall>r \<in> set (tl cs). even (ntt r) \<noteq> even c"
    and ids: "map ntt rs = to # fresh_ids c (length cs - 1)"
  shows "length (filter (\<lambda>(ol, nt). nt \<noteq> ol) (zip (map ntt cs) (map ntt rs)))
      = (if to = from then length cs - 1 else length cs)"
proof -
  from found(2) obtain r rs0 where cs: "cs = r # rs0" by (cases cs) auto
  have r_from: "ntt r = from" using children_hd [OF found] cs by simp
  have all_changed: "filter (\<lambda>(ol, nt). nt \<noteq> ol) (zip (map ntt rs0) (fresh_ids c (length rs0)))
      = zip (map ntt rs0) (fresh_ids c (length rs0))"
  proof (rule filter_True, rule ballI)
    fix x assume x: "x \<in> set (zip (map ntt rs0) (fresh_ids c (length rs0)))"
    obtain ol nt where xe: "x = (ol, nt)" by (cases x)
    with x have "ol \<in> set (map ntt rs0)" and n: "nt \<in> set (fresh_ids c (length rs0))"
      by (auto dest: set_zip_leftD set_zip_rightD)
    then have "even ol \<noteq> even c" using parity by (auto simp add: cs)
    moreover have "even nt \<longleftrightarrow> even c" using n by (rule fresh_ids_parity)
    ultimately show "case x of (ol, nt) \<Rightarrow> nt \<noteq> ol" using xe by auto
  qed
  show ?thesis unfolding ids using all_changed r_from by (simp add: cs)
qed

lemma reuse_renames_distinct:
  assumes uniq: "distinct (map ntt (g0 t))" "to \<notin> set (map ntt (g0 t))"
    and minted: "\<forall>x \<in> set (map ntt (g0 t)) \<union> {to}. unat x \<le> unat c"
    and nowrap: "unat c + 2 * n < 2 ^ 32"
    and ids: "map ntt rs = to # fresh_ids c n"
  shows "distinct (map ntt (g0 t @ rs))"
proof -
  have fr: "\<And>x. x \<in> set (fresh_ids c n) \<Longrightarrow> unat c < unat x"
    using nowrap by (rule fresh_ids_above)
  have "to \<notin> set (fresh_ids c n)"
    using fr [of to] minted by auto
  moreover have "set (map ntt (g0 t)) \<inter> set (fresh_ids c n) = {}"
    using fr minted by fastforce
  moreover have "distinct (fresh_ids c n)" using nowrap by (rule fresh_ids_distinct)
  ultimately show ?thesis using uniq by (auto simp add: ids)
qed

text \<open>
  C3, as stated, fails. On \<^verbatim>\<open>etree.reuse\<close> taken alone: with the counter at 0, reusing
  entity 3 (a subtree of two records) as 2 renames both copies to 2; with the counter at
  4, reusing entity 3 whose subtree holds the identity 6 mints 6 for that record, its
  identity does not change and the callback runs once for two records. On \<^verbatim>\<open>serialize\<close>:
  \<^verbatim>\<open>Node.Entity\<close> is an exported field, so the target of a reuse node need not come from
  the counter. A reuse node of entity 3 whose \<^verbatim>\<open>Entity\<close> is 4, serialized with the counter
  at 2, leaves the identities 4 and 4 in the current generation; a reuse node of entity
  3 as 2, when the previous generation holds the identity 6 below 3 and the counter is
  at 4, emits a single \<^verbatim>\<open>OpReID\<close> for two records.
\<close>

theorem reuse_renames_subtree_counterexample:
  "reuse 3 2 0 (\<lambda>ol nt log. log @ [(ol, nt)]) []
     \<lparr>g0 = [], g1 = [\<lparr>ntt = 3, scp = 2, phdl = [] :: unit intentHandler\<rparr>,
                     \<lparr>ntt = 5, scp = 1, phdl = []\<rparr>]\<rparr>
   = Inr (\<lparr>g0 = [\<lparr>ntt = 2, scp = 2, phdl = []\<rparr>, \<lparr>ntt = 2, scp = 1, phdl = []\<rparr>],
            g1 = [\<lparr>ntt = 3, scp = 2, phdl = []\<rparr>, \<lparr>ntt = 5, scp = 1, phdl = []\<rparr>]\<rparr>,
          2, [(3, 2), (5, 2)])
   \<and> \<not> distinct (map ntt [\<lparr>ntt = 2, scp = 2, phdl = [] :: unit intentHandler\<rparr>,
                           \<lparr>ntt = 2, scp = 1, phdl = []\<rparr>])
   \<and> reuse 3 2 4 (\<lambda>ol nt log. log @ [(ol, nt)]) []
     \<lparr>g0 = [], g1 = [\<lparr>ntt = 3, scp = 2, phdl = [] :: unit intentHandler\<rparr>,
                     \<lparr>ntt = 6, scp = 1, phdl = []\<rparr>]\<rparr>
   = Inr (\<lparr>g0 = [\<lparr>ntt = 2, scp = 2, phdl = []\<rparr>, \<lparr>ntt = 6, scp = 1, phdl = []\<rparr>],
            g1 = [\<lparr>ntt = 3, scp = 2, phdl = []\<rparr>, \<lparr>ntt = 6, scp = 1, phdl = []\<rparr>]\<rparr>,
          6, [(3, 2)])
   \<and> map_sum id (\<lambda>(h, t, c, vm). (map ntt (g0 t), c))
       (serialize (Suc 0) (Some 0)
          ([(GetNode ''reuse'')\<lparr>old := 3, Entity := 4\<rparr>],
           \<lparr>g0 = [], g1 = [\<lparr>ntt = 3, scp = 2, phdl = [] :: unit intentHandler\<rparr>,
                           \<lparr>ntt = 5, scp = 1, phdl = []\<rparr>]\<rparr>, 2, []))
     = Inr ([4, 4], 4)
   \<and> map_sum id (\<lambda>(h, t, c, vm). (map ntt (g0 t), c, vm))
       (serialize (Suc 0) (Some 0)
          ([(GetNode ''reuse'')\<lparr>old := 3, Entity := 2\<rparr>],
           \<lparr>g0 = [], g1 = [\<lparr>ntt = 3, scp = 2, phdl = [] :: unit intentHandler\<rparr>,
                           \<lparr>ntt = 6, scp = 1, phdl = []\<rparr>]\<rparr>, 4, []))
     = Inr ([2, 6], 6, AddInstr (AddInstr [] OpReuse [fmt 3]) OpReID [fmt 3, fmt 2])"
  by (simp add: GetNode_def serialize_reuse_def reuse_def children_def locate_def Inc_def)

text \<open>
  C3, amended. Let \<open>from\<close> be located at index \<open>i\<close> of the previous generation with a
  span of \<open>k > 0\<close> records inside that generation, and let \<open>cs\<close> be these \<open>k\<close> records.
  \<^verbatim>\<open>etree.reuse\<close> appends \<open>k\<close> records \<open>rs\<close> to the current generation: the records of \<open>cs\<close>
  with their spans and handlers and new identities, the first \<open>to\<close>, record \<open>j > 0\<close> the
  \<open>j\<close>-th identity minted from the counter, whatever its old identity. The callback
  runs, in order, exactly on the pairs (old, new) of the records whose identity changed.
  When the other records of the subtree have the other parity than the counter (as the
  records of the previous generation of the engine do), these are \<open>k\<close> calls, or \<open>k - 1\<close>
  when \<open>to\<close> equals \<open>from\<close>. When the identities of the current generation are distinct, do
  not contain \<open>to\<close>, and neither they nor \<open>to\<close> are above the counter (they were minted
  before), and the counter does not wrap, the identities of the current generation are
  distinct afterwards.
\<close>

theorem reuse_renames_subtree:
  fixes t :: "'a etree" and it :: "Entity \<Rightarrow> Entity \<Rightarrow> 'v \<Rightarrow> 'v"
  assumes loc: "locate t from = int i"
    and span: "0 < scp (g1 t ! i)" "i + scp (g1 t ! i) \<le> length (g1 t)"
    and cs: "cs = take (scp (g1 t ! i)) (drop i (g1 t))"
  shows "\<exists>rs. reuse from to c it acc t
                 = Inr (t\<lparr>g0 := g0 t @ rs\<rparr>, c + 2 * of_nat (scp (g1 t ! i) - 1),
                        foldl (\<lambda>a (ol, nt). it ol nt a) acc
                          (filter (\<lambda>(ol, nt). nt \<noteq> ol) (zip (map ntt cs) (map ntt rs))))
             \<and> length rs = scp (g1 t ! i)
             \<and> map scp rs = map scp cs \<and> map phdl rs = map phdl cs
             \<and> ntt (rs ! 0) = to
             \<and> (\<forall>j. 0 < j \<and> j < scp (g1 t ! i) \<longrightarrow> ntt (rs ! j) = c + 2 * of_nat j)
             \<and> ((\<forall>r \<in> set (tl cs). even (ntt r) \<noteq> even c) \<longrightarrow>
                  length (filter (\<lambda>(ol, nt). nt \<noteq> ol) (zip (map ntt cs) (map ntt rs)))
                    = (if to = from then scp (g1 t ! i) - 1 else scp (g1 t ! i)))
             \<and> (distinct (map ntt (g0 t)) \<and> to \<notin> set (map ntt (g0 t))
                  \<and> (\<forall>x \<in> set (map ntt (g0 t)) \<union> {to}. unat x \<le> unat c)
                  \<and> unat c + 2 * (scp (g1 t ! i) - 1) < 2 ^ 32 \<longrightarrow>
                  distinct (map ntt (g0 t @ rs)))"
proof -
  have len: "length cs = scp (g1 t ! i)" using span(2) by (simp add: cs)
  have ne: "cs \<noteq> []" using len span(1) by auto
  have ch: "children t from = Inr cs" using loc span(2) by (simp add: children_def cs)
  from reuse_renames_shape [OF ch ne, of to c it acc] obtain rs where
    r: "reuse from to c it acc t
                 = Inr (t\<lparr>g0 := g0 t @ rs\<rparr>, c + 2 * of_nat (length cs - 1),
                        foldl (\<lambda>a (ol, nt). it ol nt a) acc
                          (filter (\<lambda>(ol, nt). nt \<noteq> ol) (zip (map ntt cs) (map ntt rs))))"
      "length rs = length cs" "map scp rs = map scp cs" "map phdl rs = map phdl cs"
      "ntt (rs ! 0) = to" "\<forall>j. 0 < j \<and> j < length cs \<longrightarrow> ntt (rs ! j) = c + 2 * of_nat j"
      "map ntt rs = to # fresh_ids c (length cs - 1)"
    by (elim exE conjE) (rule that)
  have cnt: "length (filter (\<lambda>(ol, nt). nt \<noteq> ol) (zip (map ntt cs) (map ntt rs)))
                    = (if to = from then length cs - 1 else length cs)"
    if "\<forall>r \<in> set (tl cs). even (ntt r) \<noteq> even c"
    using reuse_renames_count [OF ch ne that r(7)] .
  have dis: "distinct (map ntt (g0 t @ rs))"
    if "distinct (map ntt (g0 t)) \<and> to \<notin> set (map ntt (g0 t))
        \<and> (\<forall>x \<in> set (map ntt (g0 t)) \<union> {to}. unat x \<le> unat c)
        \<and> unat c + 2 * (length cs - 1) < 2 ^ 32"
  proof -
    from that have a: "distinct (map ntt (g0 t))" and b: "to \<notin> set (map ntt (g0 t))"
      and m: "\<forall>x \<in> set (map ntt (g0 t)) \<union> {to}. unat x \<le> unat c"
      and w: "unat c + 2 * (length cs - 1) < 2 ^ 32" by simp_all
    from a b m w r(7) show ?thesis by (rule reuse_renames_distinct)
  qed
  show ?thesis unfolding len [symmetric]
    by (intro exI [where x = rs] conjI impI) (fact r | erule cnt | erule dis)+
qed

text \<open>
  The amended statement at work: a subtree of three records located at index 1 of the
  previous generation, reused under a new identity and under its own.
\<close>

theorem reuse_renames_subtree_witness:
  fixes t :: "unit etree" and cs :: "unit prenode list"
  defines "t \<equiv> \<lparr>g0 = [\<lparr>ntt = 4, scp = 1, phdl = []\<rparr>],
                 g1 = [\<lparr>ntt = 3, scp = 4, phdl = []\<rparr>, \<lparr>ntt = 5, scp = 3, phdl = []\<rparr>,
                       \<lparr>ntt = 7, scp = 1, phdl = []\<rparr>, \<lparr>ntt = 9, scp = 1, phdl = []\<rparr>]\<rparr>"
    and "cs \<equiv> [\<lparr>ntt = 5, scp = 3, phdl = []\<rparr>, \<lparr>ntt = 7, scp = 1, phdl = []\<rparr>,
                \<lparr>ntt = 9, scp = 1, phdl = []\<rparr>]"
  shows "locate t 5 = 1 \<and> scp (g1 t ! 1) = 3 \<and> cs = take 3 (drop 1 (g1 t))
    \<and> (\<exists>rs. reuse 5 2 4 (\<lambda>ol nt log. log @ [(ol, nt)]) [] t
               = Inr (t\<lparr>g0 := g0 t @ rs\<rparr>, 8,
                      foldl (\<lambda>a (ol, nt). a @ [(ol, nt)]) []
                        (filter (\<lambda>(ol, nt). nt \<noteq> ol) (zip (map ntt cs) (map ntt rs))))
            \<and> ntt (rs ! 0) = 2 \<and> ntt (rs ! 1) = 6 \<and> ntt (rs ! 2) = 8
            \<and> length (filter (\<lambda>(ol, nt). nt \<noteq> ol) (zip (map ntt cs) (map ntt rs))) = 3
            \<and> distinct (map ntt (g0 t @ rs)))
    \<and> (\<exists>rs. reuse 5 5 4 (\<lambda>ol nt log. log @ [(ol, nt)]) [] t
               = Inr (t\<lparr>g0 := g0 t @ rs\<rparr>, 8,
                      foldl (\<lambda>a (ol, nt). a @ [(ol, nt)]) []
                        (filter (\<lambda>(ol, nt). nt \<noteq> ol) (zip (map ntt cs) (map ntt rs))))
            \<and> ntt (rs ! 0) = 5 \<and> ntt (rs ! 1) = 6 \<and> ntt (rs ! 2) = 8
            \<and> length (filter (\<lambda>(ol, nt). nt \<noteq> ol) (zip (map ntt cs) (map ntt rs))) = 2)"
proof -
  have loc: "locate t 5 = int 1" by (simp add: t_def locate_def)
  have s1: "0 < scp (g1 t ! 1)" and s2: "1 + scp (g1 t ! 1) \<le> length (g1 t)"
    and k: "scp (g1 t ! 1) = 3" by (simp_all add: t_def)
  have k': "scp (g1 t ! Suc 0) = 3" using k by simp
  have cs: "cs = take (scp (g1 t ! 1)) (drop 1 (g1 t))" by (simp add: t_def cs_def)
  have par: "\<forall>r \<in> set (tl cs). even (ntt r) \<noteq> even (4 :: Counter)" by (simp add: cs_def)
  have u: "distinct (map ntt (g0 t)) \<and> (2 :: Entity) \<notin> set (map ntt (g0 t))
      \<and> (\<forall>x \<in> set (map ntt (g0 t)) \<union> {2 :: Entity}. unat x \<le> unat (4 :: Counter))
      \<and> unat (4 :: Counter) + 2 * (scp (g1 t ! 1) - 1) < 2 ^ 32" by (simp add: t_def)
  from reuse_renames_subtree [OF loc s1 s2 cs, of 2 4 "\<lambda>ol nt log. log @ [(ol, nt)]" "[]"]
  obtain rs where r: "reuse 5 2 4 (\<lambda>ol nt log. log @ [(ol, nt)]) [] t
                 = Inr (t\<lparr>g0 := g0 t @ rs\<rparr>, 4 + 2 * of_nat (scp (g1 t ! 1) - 1),
                        foldl (\<lambda>a (ol, nt). a @ [(ol, nt)]) []
                          (filter (\<lambda>(ol, nt). nt \<noteq> ol) (zip (map ntt cs) (map ntt rs))))"
     "length rs = scp (g1 t ! 1)" "map scp rs = map scp cs" "map phdl rs = map phdl cs"
     "ntt (rs ! 0) = 2" "\<forall>j. 0 < j \<and> j < scp (g1 t ! 1) \<longrightarrow> ntt (rs ! j) = 4 + 2 * of_nat j"
     "(\<forall>r \<in> set (tl cs). even (ntt r) \<noteq> even (4 :: Counter)) \<longrightarrow>
        length (filter (\<lambda>(ol, nt). nt \<noteq> ol) (zip (map ntt cs) (map ntt rs)))
                 = (if (2 :: Entity) = 5 then scp (g1 t ! 1) - 1 else scp (g1 t ! 1))"
     "distinct (map ntt (g0 t)) \<and> (2 :: Entity) \<notin> set (map ntt (g0 t))
        \<and> (\<forall>x \<in> set (map ntt (g0 t)) \<union> {2 :: Entity}. unat x \<le> unat (4 :: Counter))
        \<and> unat (4 :: Counter) + 2 * (scp (g1 t ! 1) - 1) < 2 ^ 32 \<longrightarrow>
        distinct (map ntt (g0 t @ rs))"
    by (elim exE conjE) (rule that)
  have r12: "ntt (rs ! 1) = 6" "ntt (rs ! 2) = 8"
    using r(6) [rule_format, of 1] r(6) [rule_format, of 2] by (simp_all add: k k')
  from r(1) have r1: "reuse 5 2 4 (\<lambda>ol nt log. log @ [(ol, nt)]) [] t
               = Inr (t\<lparr>g0 := g0 t @ rs\<rparr>, 8,
                      foldl (\<lambda>a (ol, nt). a @ [(ol, nt)]) []
                        (filter (\<lambda>(ol, nt). nt \<noteq> ol) (zip (map ntt cs) (map ntt rs))))"
    by (simp add: k k')
  from r(7) par have r4: "length (filter (\<lambda>(ol, nt). nt \<noteq> ol) (zip (map ntt cs) (map ntt rs))) = 3"
    by (simp add: k k')
  from r(8) u have r8: "distinct (map ntt (g0 t @ rs))" by (rule mp)
  have A: "\<exists>rs. reuse 5 2 4 (\<lambda>ol nt log. log @ [(ol, nt)]) [] t
               = Inr (t\<lparr>g0 := g0 t @ rs\<rparr>, 8,
                      foldl (\<lambda>a (ol, nt). a @ [(ol, nt)]) []
                        (filter (\<lambda>(ol, nt). nt \<noteq> ol) (zip (map ntt cs) (map ntt rs))))
            \<and> ntt (rs ! 0) = 2 \<and> ntt (rs ! 1) = 6 \<and> ntt (rs ! 2) = 8
            \<and> length (filter (\<lambda>(ol, nt). nt \<noteq> ol) (zip (map ntt cs) (map ntt rs))) = 3
            \<and> distinct (map ntt (g0 t @ rs))"
    by (intro exI [where x = rs] conjI) (fact r1 r(5) r12 r4 r8)+
  from reuse_renames_subtree [OF loc s1 s2 cs, of 5 4 "\<lambda>ol nt log. log @ [(ol, nt)]" "[]"]
  obtain qs where q: "reuse 5 5 4 (\<lambda>ol nt log. log @ [(ol, nt)]) [] t
                 = Inr (t\<lparr>g0 := g0 t @ qs\<rparr>, 4 + 2 * of_nat (scp (g1 t ! 1) - 1),
                        foldl (\<lambda>a (ol, nt). a @ [(ol, nt)]) []
                          (filter (\<lambda>(ol, nt). nt \<noteq> ol) (zip (map ntt cs) (map ntt qs))))"
     "length qs = scp (g1 t ! 1)" "map scp qs = map scp cs" "map phdl qs = map phdl cs"
     "ntt (qs ! 0) = 5" "\<forall>j. 0 < j \<and> j < scp (g1 t ! 1) \<longrightarrow> ntt (qs ! j) = 4 + 2 * of_nat j"
     "(\<forall>r \<in> set (tl cs). even (ntt r) \<noteq> even (4 :: Counter)) \<longrightarrow>
        length (filter (\<lambda>(ol, nt). nt \<noteq> ol) (zip (map ntt cs) (map ntt qs)))
                 = (if (5 :: Entity) = 5 then scp (g1 t ! 1) - 1 else scp (g1 t ! 1))"
     "distinct (map ntt (g0 t)) \<and> (5 :: Entity) \<notin> set (map ntt (g0 t))
        \<and> (\<forall>x \<in> set (map ntt (g0 t)) \<union> {5 :: Entity}. unat x \<le> unat (4 :: Counter))
        \<and> unat (4 :: Counter) + 2 * (scp (g1 t ! 1) - 1) < 2 ^ 32 \<longrightarrow>
        distinct (map ntt (g0 t @ qs))"
    by (elim exE conjE) (rule that)
  have q12: "ntt (qs ! 1) = 6" "ntt (qs ! 2) = 8"
    using q(6) [rule_format, of 1] q(6) [rule_format, of 2] by (simp_all add: k k')
  from q(1) have q1: "reuse 5 5 4 (\<lambda>ol nt log. log @ [(ol, nt)]) [] t
               = Inr (t\<lparr>g0 := g0 t @ qs\<rparr>, 8,
                      foldl (\<lambda>a (ol, nt). a @ [(ol, nt)]) []
                        (filter (\<lambda>(ol, nt). nt \<noteq> ol) (zip (map ntt cs) (map ntt qs))))"
    by (simp add: k k')
  from q(7) par have q4: "length (filter (\<lambda>(ol, nt). nt \<noteq> ol) (zip (map ntt cs) (map ntt qs))) = 2"
    by (simp add: k k')
  have B: "\<exists>rs. reuse 5 5 4 (\<lambda>ol nt log. log @ [(ol, nt)]) [] t
               = Inr (t\<lparr>g0 := g0 t @ rs\<rparr>, 8,
                      foldl (\<lambda>a (ol, nt). a @ [(ol, nt)]) []
                        (filter (\<lambda>(ol, nt). nt \<noteq> ol) (zip (map ntt cs) (map ntt rs))))
            \<and> ntt (rs ! 0) = 5 \<and> ntt (rs ! 1) = 6 \<and> ntt (rs ! 2) = 8
            \<and> length (filter (\<lambda>(ol, nt). nt \<noteq> ol) (zip (map ntt cs) (map ntt rs))) = 2"
    by (intro exI [where x = qs] conjI) (fact q1 q(5) q12 q4)+
  have l1: "locate t 5 = 1" using loc by simp
  have c3: "cs = take 3 (drop 1 (g1 t))" using cs k by simp
  show ?thesis by (intro conjI) (fact l1 k c3 A B)+
qed

subsection \<open>Interactions with a stale generation stamp\<close>

text \<open>
  C2, as stated, fails: for an interaction stamped with generation 0 and an engine in
  generation 1 the driver produces a program (the closure of \<^verbatim>\<open>ReactToIntent\<close> returns
  the context it was given, which is not \<^verbatim>\<open>NoAction\<close>, so \<^verbatim>\<open>turncrank\<close> renders).
\<close>

theorem stale_intent_counterexample:
  "cfGen stale_frame \<noteq> gen div_engine
   \<and> map_sum id snd (turncrank 0 (ReactToIntent_do stale_frame) div_engine)
       = Inr (Some (program [CreateElement ''div'', Next, Term]))"
  by (simp add: div_engine_def stale_frame_def turncrank_def ReactToIntent_do_def NoAction_def
      GetNode_def Let_def create_element_def courtesy_def open_entity_def attrs_text_def close_entity_def program_def
      AddInstr_def AppendUint16_def Op_defs)

text \<open>
  C2, amended. For an interaction whose generation stamp differs from the generation of
  the engine, the closure of \<^verbatim>\<open>ReactToIntent\<close> looks up no handler and returns the engine
  and the context unchanged; \<^verbatim>\<open>turncrank\<close> then does what it does for the identity action:
  whenever it returns, a program ending with the terminate instruction is handed out,
  the generation has advanced by one, and the application state and the call frame are
  those from before.
\<close>

theorem stale_intent_rerenders:
  assumes "cfGen cf \<noteq> gen e"
  shows "ReactToIntent_do cf e ctx = Inr (e, ctx)
    \<and> turncrank rnd (ReactToIntent_do cf) e = turncrank rnd (\<lambda>e ctx. Inr (e, ctx)) e
    \<and> (\<forall>e' out. turncrank rnd (ReactToIntent_do cf) e = Inr (e', out) \<longrightarrow>
          out = Some (buf e') \<and> vx0 e' = vx0 e \<and> frame e' = frame e \<and> gen e' = gen e + 1
          \<and> (\<exists>vm. buf e' = AddInstr vm OpTerm []))"
  using assms
  by (auto simp add: turncrank_def ReactToIntent_do_def NoAction_def Let_def
      split: sum.splits prod.splits)

theorem stale_intent_rerenders_witness:
  "cfGen stale_frame \<noteq> gen div_engine
   \<and> ReactToIntent_do stale_frame div_engine \<lparr>ng = True, vx = Some 0\<rparr>
       = Inr (div_engine, \<lparr>ng = True, vx = Some 0\<rparr>)
   \<and> turncrank 0 (ReactToIntent_do stale_frame) div_engine
       = turncrank 0 (\<lambda>e ctx. Inr (e, ctx)) div_engine"
proof -
  have h: "cfGen stale_frame \<noteq> gen div_engine"
    by (simp add: stale_frame_def div_engine_def)
  from stale_intent_rerenders [OF h, of "\<lparr>ng = True, vx = Some 0\<rparr>" 0] h
  show ?thesis by blast
qed

subsection \<open>Steps of a serialization pass\<close>


lemma loop_rel:
  assumes r: "\<And>s. R s s" and tr: "\<And>s1 s2 s3. R s1 s2 \<Longrightarrow> R s2 s3 \<Longrightarrow> R s1 s3"
    and body: "\<And>x s s'. x \<in> set xs \<Longrightarrow> body x s = Inr s' \<Longrightarrow> R s s'"
    and run: "loop body xs s = Inr s'"
  shows "R s s'"
  using body run
proof (induction xs arbitrary: s)
  case Nil
  then show ?case using r by simp
next
  case (Cons x xs)
  from Cons.prems(2) obtain s1 where b: "body x s = Inr s1" and l: "loop body xs s1 = Inr s'"
    by (auto split: sum.splits)
  have "R s s1" using Cons.prems(1) [of x s s1] b by simp
  moreover have "R s1 s'"
  proof (rule Cons.IH)
    fix y s2 s3 assume "y \<in> set xs" "body y s2 = Inr s3"
    then show "R s2 s3" using Cons.prems(1) [of y s2 s3] by simp
  next
    show "loop body xs s1 = Inr s'" by (rule l)
  qed
  ultimately show ?case by (rule tr)
qed

lemma serialize_Suc_Inr [consumes 1, case_names Nothing Reuse Default]:
  assumes "serialize (Suc f) p (h, t, c, vm) = Inr s'"
  obtains
    (Nothing) a where "p = Some a" "a < length h" "\<not> visited (h ! a)"
      "TagName (h ! a) = ''nothing''"
      "loop (\<lambda>c s. if c = None then Inl NilChild else serialize f c s) (Children (h ! a))
         (h[a := (h ! a)\<lparr>visited := True\<rparr>], t, c, vm) = Inr s'"
  | (Reuse) a t' c' vm' where "p = Some a" "a < length h" "\<not> visited (h ! a)"
      "TagName (h ! a) = ''reuse''"
      "serialize_reuse (h ! a) t c vm = Inr (t', c', vm')"
      "s' = (h[a := (h ! a)\<lparr>visited := True\<rparr>], t', c', vm')"
  | (Default) a ent c1 idx t1 vm3 h3 t2 c2 vm4 t3 where "p = Some a" "a < length h"
      "\<not> visited (h ! a)" "TagName (h ! a) \<noteq> []" "TagName (h ! a) \<noteq> ''nothing''"
      "TagName (h ! a) \<noteq> ''reuse''"
      "courtesy (h ! a) c = (ent, c1)"
      "open_entity (h ! a) ent t (create_element (h ! a) vm) = Inr (idx, t1, vm3)"
      "loop (serialize f) (Children (h ! a))
         (h[a := (h ! a)\<lparr>visited := True, Entity := ent\<rparr>], t1, c1, attrs_text (h ! a) vm3)
         = Inr (h3, t2, c2, vm4)"
      "close_entity ent idx t2 = Inr t3"
      "s' = (h3, t3, c2, AddInstr vm4 OpNext [])"
proof -
  from assms obtain a where p: "p = Some a" by (cases p) auto
  from assms p have a: "a < length h" and v: "\<not> visited (h ! a)" and tg: "TagName (h ! a) \<noteq> []"
    by (auto simp add: Let_def split: if_splits)
  show thesis
  proof (cases "TagName (h ! a) = ''nothing''")
    case True
    have "loop (\<lambda>c s. if c = None then Inl NilChild else serialize f c s) (Children (h ! a))
         (h[a := (h ! a)\<lparr>visited := True\<rparr>], t, c, vm) = Inr s'"
      using assms p a v True by (simp add: Let_def)
    then show thesis by (rule Nothing [OF p a v True])
  next
    case nn: False
    show thesis
    proof (cases "TagName (h ! a) = ''reuse''")
      case True
      from assms p a v nn tg True obtain t' c' vm' where
        "serialize_reuse (h ! a) t c vm = Inr (t', c', vm')"
        "s' = (h[a := (h ! a)\<lparr>visited := True\<rparr>], t', c', vm')"
        by (auto simp add: Let_def split: sum.splits)
      then show thesis by (rule Reuse [OF p a v True])
    next
      case nr: False
      obtain ent c1 where co: "courtesy (h ! a) c = (ent, c1)" by (cases "courtesy (h ! a) c")
      from assms p a v nn nr tg co obtain idx t1 vm3 h3 t2 c2 vm4 t3 where
        "open_entity (h ! a) ent t (create_element (h ! a) vm) = Inr (idx, t1, vm3)"
        "loop (serialize f) (Children (h ! a))
           (h[a := (h ! a)\<lparr>visited := True, Entity := ent\<rparr>], t1, c1, attrs_text (h ! a) vm3)
           = Inr (h3, t2, c2, vm4)"
        "close_entity ent idx t2 = Inr t3"
        "s' = (h3, t3, c2, AddInstr vm4 OpNext [])"
        by (auto simp add: Let_def split: sum.splits)
      then show thesis by (rule Default [OF p a v tg nn nr co])
    qed
  qed
qed


lemma node_step_refl: "node_step n n"
  by (simp add: node_step_def)

lemma node_step_trans: "node_step n1 n2 \<Longrightarrow> node_step n2 n3 \<Longrightarrow> node_step n1 n3"
  by (auto simp add: node_step_def)

lemma node_step_mark_ent: "\<not> visited n \<Longrightarrow> node_step n (n\<lparr>visited := True, Entity := e\<rparr>)"
  by (auto simp add: node_step_def)

lemma node_step_mark: "\<not> visited n \<Longrightarrow> node_step n (n\<lparr>visited := True\<rparr>)"
  using node_step_mark_ent [of n "Entity n"] by simp

lemma heap_step_refl: "list_all2 node_step h h"
  by (simp add: list_all2_conv_all_nth node_step_refl)

lemma heap_step_trans:
  "list_all2 node_step h1 h2 \<Longrightarrow> list_all2 node_step h2 h3 \<Longrightarrow> list_all2 node_step h1 h3"
  by (simp add: list_all2_conv_all_nth) (metis node_step_trans)

lemma heap_step_update:
  "a < length h \<Longrightarrow> node_step (h ! a) n' \<Longrightarrow> list_all2 node_step h (h[a := n'])"
  by (auto simp add: list_all2_conv_all_nth nth_list_update node_step_refl)

lemma sstep_refl: "sstep s s"
  by (cases s) (simp add: sstep_def heap_step_refl)

lemma sstep_trans: "sstep s1 s2 \<Longrightarrow> sstep s2 s3 \<Longrightarrow> sstep s1 s3"
  by (cases s1, cases s2, cases s3) (auto simp add: sstep_def intro: heap_step_trans)

lemma foldl_append_acc:
  assumes "\<And>a x. f (vm @ a) x = vm @ f a x"
  shows "foldl f (vm @ a) xs = vm @ foldl f a xs"
  using assms by (induction xs arbitrary: a) auto

lemma AddInstr_append2: "AddInstr (vm @ x) code val = vm @ AddInstr x code val"
proof -
  have "foldl (\<lambda>vm s. AppendUint16 vm (word_of_nat (length s)) @ map of_char s)
          (vm @ (x @ [code])) val
      = vm @ foldl (\<lambda>vm s. AppendUint16 vm (word_of_nat (length s)) @ map of_char s)
          (x @ [code]) val"
    by (rule foldl_append_acc) (simp add: AppendUint16_def)
  then show ?thesis by (simp add: AddInstr_def)
qed

lemma AddInstr_append: "AddInstr vm code val = vm @ AddInstr [] code val"
  using AddInstr_append2 [of vm "[]" code val] by simp

lemma AddInstr_ex: "\<exists>ys. AddInstr vm code val = vm @ ys"
  using AddInstr_append by blast

lemma create_element_append: "create_element n vm = vm @ create_element n []"
  by (simp add: create_element_def Let_def AddInstr_append [of vm] AddInstr_append2)

lemma attrs_text_append: "attrs_text n vm = vm @ attrs_text n []"
proof -
  have "foldl (\<lambda>vm a. AddInstr vm OpSetAttr [Name a, Value a]) (vm @ []) (Attrs n)
     = vm @ foldl (\<lambda>vm a. AddInstr vm OpSetAttr [Name a, Value a]) [] (Attrs n)"
    by (rule foldl_append_acc) (simp add: AddInstr_append2)
  then have "foldl (\<lambda>vm a. AddInstr vm OpSetAttr [Name a, Value a]) vm (Attrs n)
     = vm @ foldl (\<lambda>vm a. AddInstr vm OpSetAttr [Name a, Value a]) [] (Attrs n)"
    by simp
  then show ?thesis
    by (simp add: attrs_text_def Let_def AddInstr_append2)
qed

lemma open_entity_Inr:
  assumes "open_entity n ent t vm = Inr (idx, t1, vm3)"
  shows "(ent = 0 \<and> idx = 0 \<and> t1 = t \<and> vm3 = vm)
    \<or> (ent \<noteq> 0 \<and> ent < 10240 \<and> idx = length (g0 t)
        \<and> t1 = t\<lparr>g0 := g0 t @ [\<lparr>ntt = ent, scp = 0,
                                  phdl = (if Some_hdl (hdl n) then hdl n else no_handler)\<rparr>]\<rparr>
        \<and> vm3 = AddInstr vm OpSetID [fmt ent])"
  using assms
  by (auto simp add: open_entity_def add_def addHandler_def split: if_splits)

lemma close_entity_Inr:
  assumes "close_entity ent idx t2 = Inr t3"
  shows "(ent = 0 \<and> t3 = t2)
    \<or> (ent \<noteq> 0 \<and> idx < length (g0 t2)
        \<and> t3 = t2\<lparr>g0 := (g0 t2)[idx := (g0 t2 ! idx)\<lparr>scp := length (g0 t2) - idx\<rparr>]\<rparr>)"
  using assms by (auto simp add: close_entity_def closeScope_def split: if_splits)

lemma reuse_Inr:
  assumes "reuse from to c it acc t = Inr (t', c', acc')"
  shows "\<exists>cs. children t from = Inr cs
     \<and> t' = t\<lparr>g0 := g0 t @ map (\<lambda>(r, nt). r\<lparr>ntt := nt\<rparr>)
                               (zip cs (if cs = [] then [] else to # fresh_ids c (length cs - 1)))\<rparr>
     \<and> c' = c + 2 * of_nat (length cs - 1)
     \<and> acc' = foldl (\<lambda>a (ol, nt). it ol nt a) acc
         (filter (\<lambda>(ol, nt). nt \<noteq> ol)
            (zip (map ntt cs) (if cs = [] then [] else to # fresh_ids c (length cs - 1))))"
proof -
  from assms obtain cs where cs: "children t from = Inr cs"
    by (auto simp add: reuse_def split: sum.splits)
  show ?thesis
  proof (cases cs)
    case Nil
    with assms cs show ?thesis by (auto simp add: reuse_def)
  next
    case (Cons r rs)
    with assms cs show ?thesis
      by (auto simp add: reuse_def rename_loop_0 simp del: rename_loop.simps)
  qed
qed


lemma serialize_reuse_step:
  assumes "serialize_reuse n t c vm = Inr (t', c', vm')"
  shows "g1 t' = g1 t \<and> (\<exists>xs. g0 t' = g0 t @ xs) \<and> (\<exists>ys. vm' = vm @ ys) \<and> (even c' \<longleftrightarrow> even c)"
proof -
  from reuse_Inr [OF assms [unfolded serialize_reuse_def]] obtain cs ps where
    t': "t' = t\<lparr>g0 := g0 t @ map (\<lambda>(r, nt). r\<lparr>ntt := nt\<rparr>)
                    (zip cs (if cs = [] then [] else Entity n # fresh_ids c (length cs - 1)))\<rparr>"
    and c': "c' = c + 2 * of_nat (length cs - 1)"
    and vm': "vm' = foldl (\<lambda>a (ol, nt). AddInstr a OpReID [fmt ol, fmt nt])
                (AddInstr vm OpReuse [fmt (old n)]) ps"
    by blast
  have "\<And>a. \<exists>ys. foldl (\<lambda>a (ol, nt). AddInstr a OpReID [fmt ol, fmt nt]) (vm @ a) ps = vm @ ys"
  proof (induction ps)
    case Nil
    show ?case by simp
  next
    case (Cons p ps)
    obtain ol nt where p: "p = (ol, nt)" by (cases p)
    show ?case using Cons.IH [of "AddInstr a OpReID [fmt ol, fmt nt]"] p
      by (simp add: AddInstr_append2)
  qed
  from this [of "AddInstr [] OpReuse [fmt (old n)]"]
  have "\<exists>ys. vm' = vm @ ys" unfolding vm' by (simp add: AddInstr_append [of vm])
  then show ?thesis using t' c' by simp
qed

lemma serialize_step:
  fixes s :: "'a sstate"
  shows "serialize f p s = Inr s' \<Longrightarrow> sstep s s'"
proof (induction f arbitrary: p s s')
  case 0
  then show ?case by simp
next
  case (Suc f)
  obtain h t c vm where s: "s = (h, t, c, vm)" by (cases s) auto
  from Suc.prems [unfolded s] show ?case
  proof (cases rule: serialize_Suc_Inr)
    case (Nothing a)
    have m: "sstep s (h[a := (h ! a)\<lparr>visited := True\<rparr>], t, c, vm)"
      using Nothing(2,3) by (simp add: s sstep_def heap_step_update node_step_mark)
    have "sstep (h[a := (h ! a)\<lparr>visited := True\<rparr>], t, c, vm) s'"
    proof (rule loop_rel [OF sstep_refl sstep_trans _ Nothing(5)])
      fix x and s1 s2 :: "'a sstate"
      assume "(if x = None then Inl NilChild else serialize f x s1) = Inr s2"
      then have "serialize f x s1 = Inr s2" by (simp split: if_splits)
      then show "sstep s1 s2" by (rule Suc.IH)
    qed
    with m show ?thesis by (rule sstep_trans)
  next
    case (Reuse a t' c' vm')
    from serialize_reuse_step [OF Reuse(5)] Reuse(2,3,6) show ?thesis
      by (simp add: s sstep_def heap_step_update node_step_mark)
  next
    case (Default a ent c1 idx t1 vm3 h3 t2 c2 vm4 t3)
    let ?h2 = "h[a := (h ! a)\<lparr>visited := True, Entity := ent\<rparr>]"
    have par: "even c1 \<longleftrightarrow> even c"
      using Default(7) by (auto simp add: courtesy_def Inc_def split: if_splits)
    have l: "sstep (?h2, t1, c1, attrs_text (h ! a) vm3) (h3, t2, c2, vm4)"
    proof (rule loop_rel [OF sstep_refl sstep_trans _ Default(9)])
      fix x and s1 s2 :: "'a sstate"
      assume "serialize f x s1 = Inr s2"
      then show "sstep s1 s2" by (rule Suc.IH)
    qed
    have hh: "list_all2 node_step h ?h2"
      using Default(2,3) by (simp add: heap_step_update node_step_mark_ent)
    from l have h3: "list_all2 node_step ?h2 h3" and g1: "g1 t2 = g1 t1"
      and c2: "even c2 \<longleftrightarrow> even c1"
      and ds: "\<exists>ds. g0 t2 = g0 t1 @ ds" and vs: "\<exists>ys. vm4 = attrs_text (h ! a) vm3 @ ys"
      by (auto simp add: sstep_def)
    from ds obtain ds where ds': "g0 t2 = g0 t1 @ ds" by blast
    have vm: "\<exists>ys. AddInstr vm4 OpNext [] = vm @ ys"
    proof -
      from open_entity_Inr [OF Default(8)] have "\<exists>ys. vm3 = create_element (h ! a) vm @ ys"
        by (auto intro: AddInstr_ex)
      then obtain y0 where "vm3 = create_element (h ! a) vm @ y0" by blast
      then have 1: "vm3 = vm @ (create_element (h ! a) [] @ y0)"
        using create_element_append [of "h ! a" vm] by simp
      from vs obtain y2 where "vm4 = attrs_text (h ! a) vm3 @ y2" by blast
      then have 2: "vm4 = vm3 @ (attrs_text (h ! a) [] @ y2)"
        using attrs_text_append [of "h ! a" vm3] by simp
      have 3: "AddInstr vm4 OpNext [] = vm4 @ AddInstr [] OpNext []" by (rule AddInstr_append)
      from 1 2 3 show ?thesis by simp
    qed
    have et: "g1 t3 = g1 t \<and> (\<exists>xs. g0 t3 = g0 t @ xs)"
    proof (cases "ent = 0")
      case True
      with open_entity_Inr [OF Default(8)] close_entity_Inr [OF Default(10)] g1 ds'
      show ?thesis by auto
    next
      case False
      with open_entity_Inr [OF Default(8)] have idx: "idx = length (g0 t)"
        and t1: "g0 t1 = g0 t @ [\<lparr>ntt = ent, scp = 0,
                   phdl = (if Some_hdl (hdl (h ! a)) then hdl (h ! a) else no_handler)\<rparr>]"
        and g11: "g1 t1 = g1 t" by auto
      from False close_entity_Inr [OF Default(10)]
      have t3: "t3 = t2\<lparr>g0 := (g0 t2)[idx := (g0 t2 ! idx)\<lparr>scp := length (g0 t2) - idx\<rparr>]\<rparr>" by auto
      have "g0 t3 = g0 t @ ((g0 t2 ! idx)\<lparr>scp := length (g0 t2) - idx\<rparr>) # ds"
        using t3 ds' t1 idx by (simp add: list_update_append)
      then show ?thesis using t3 g1 g11 by simp
    qed
    show ?thesis
      using heap_step_trans [OF hh h3] et vm c2 par by (simp add: s Default(11) sstep_def)
  qed
qed










lemma loop_step:
  fixes s :: "'a sstate"
  assumes "\<And>x (s1 :: 'a sstate) s2. body x s1 = Inr s2 \<Longrightarrow> sstep s1 s2"
    and "loop body xs s = Inr s'"
  shows "sstep s s'"
proof (rule loop_rel [OF sstep_refl sstep_trans _ assms(2)])
  fix x and s1 s2 :: "'a sstate"
  assume "body x s1 = Inr s2"
  then show "sstep s1 s2" by (rule assms(1))
qed


subsection \<open>Cycle detection\<close>








subsection \<open>Spans\<close>

lemma nested_Nil: "nested []"
  by (simp add: nested_def)

lemma nested_append:
  assumes "nested xs" and "nested ys"
  shows "nested (xs @ ys)"
  unfolding nested_def
proof (intro allI impI)
  fix i assume i: "i < length (xs @ ys)"
  show "0 < (xs @ ys) ! i \<and> i + (xs @ ys) ! i \<le> length (xs @ ys)
        \<and> (\<forall>j. i < j \<and> j < i + (xs @ ys) ! i \<longrightarrow> j + (xs @ ys) ! j \<le> i + (xs @ ys) ! i)"
  proof (cases "i < length xs")
    case True
    with assms(1) have a: "0 < xs ! i" "i + xs ! i \<le> length xs"
      "\<forall>j. i < j \<and> j < i + xs ! i \<longrightarrow> j + xs ! j \<le> i + xs ! i"
      by (auto simp add: nested_def)
    have "\<And>j. i < j \<Longrightarrow> j < i + xs ! i \<Longrightarrow> (xs @ ys) ! j = xs ! j"
      using a(2) by (simp add: nth_append)
    then show ?thesis using True a by (auto simp add: nth_append)
  next
    case False
    define k where "k = i - length xs"
    have k: "k < length ys" "i = length xs + k" using False i by (auto simp add: k_def)
    with assms(2) have a: "0 < ys ! k" "k + ys ! k \<le> length ys"
      "\<forall>j. k < j \<and> j < k + ys ! k \<longrightarrow> j + ys ! j \<le> k + ys ! k"
      by (auto simp add: nested_def)
    have e: "(xs @ ys) ! i = ys ! k" using k by (simp add: nth_append)
    have "\<And>j. i < j \<Longrightarrow> j < i + ys ! k \<Longrightarrow> j + (xs @ ys) ! j \<le> i + ys ! k"
    proof -
      fix j assume j: "i < j" "j < i + ys ! k"
      then have "k < j - length xs \<and> j - length xs < k + ys ! k" using k by auto
      with a(3) have "(j - length xs) + ys ! (j - length xs) \<le> k + ys ! k" by blast
      moreover have "(xs @ ys) ! j = ys ! (j - length xs)" using j k by (simp add: nth_append)
      ultimately show "j + (xs @ ys) ! j \<le> i + ys ! k" using j k by simp
    qed
    then show ?thesis using a k e by auto
  qed
qed

lemma nested_Cons:
  assumes "nested ds"
  shows "nested (Suc (length ds) # ds)"
  unfolding nested_def
proof (intro allI impI)
  fix i assume i: "i < length (Suc (length ds) # ds)"
  show "0 < (Suc (length ds) # ds) ! i \<and> i + (Suc (length ds) # ds) ! i \<le> length (Suc (length ds) # ds)
        \<and> (\<forall>j. i < j \<and> j < i + (Suc (length ds) # ds) ! i \<longrightarrow>
               j + (Suc (length ds) # ds) ! j \<le> i + (Suc (length ds) # ds) ! i)"
  proof (cases i)
    case 0
    have "\<And>j. 0 < j \<Longrightarrow> j < Suc (length ds) \<Longrightarrow> j + (Suc (length ds) # ds) ! j \<le> Suc (length ds)"
    proof -
      fix j assume j: "0 < j" "j < Suc (length ds)"
      then obtain j' where j': "j = Suc j'" "j' < length ds" by (cases j) auto
      with assms have "j' + ds ! j' \<le> length ds" by (simp add: nested_def)
      then show "j + (Suc (length ds) # ds) ! j \<le> Suc (length ds)" using j' by simp
    qed
    then show ?thesis using 0 by simp
  next
    case (Suc k)
    with i have k: "k < length ds" by simp
    with assms have a: "0 < ds ! k" "k + ds ! k \<le> length ds"
      "\<forall>j. k < j \<and> j < k + ds ! k \<longrightarrow> j + ds ! j \<le> k + ds ! k"
      by (auto simp add: nested_def)
    have "\<And>j. i < j \<Longrightarrow> j < i + ds ! k \<Longrightarrow> j + (Suc (length ds) # ds) ! j \<le> i + ds ! k"
    proof -
      fix j assume j: "i < j" "j < i + ds ! k"
      then obtain j' where j': "j = Suc j'" by (cases j) auto
      with j Suc have "k < j' \<and> j' < k + ds ! k" by simp
      with a(3) have "j' + ds ! j' \<le> k + ds ! k" by blast
      then show "j + (Suc (length ds) # ds) ! j \<le> i + ds ! k" using j' Suc by simp
    qed
    then show ?thesis using a Suc by simp
  qed
qed

lemma nested_slice:
  assumes "nested ss" and "i < length ss"
  shows "nested (take (ss ! i) (drop i ss))"
  unfolding nested_def
proof (intro allI impI)
  let ?xs = "take (ss ! i) (drop i ss)"
  from assms have b: "i + ss ! i \<le> length ss" by (simp add: nested_def)
  then have len: "length ?xs = ss ! i" by simp
  fix k assume "k < length ?xs"
  then have k: "k < ss ! i" using len by simp
  have nth: "\<And>m. m < ss ! i \<Longrightarrow> ?xs ! m = ss ! (i + m)" using b by simp
  have ik: "i + k < length ss" using k b by simp
  with assms(1) have a: "0 < ss ! (i + k)" "i + k + ss ! (i + k) \<le> length ss"
    "\<forall>j. i + k < j \<and> j < i + k + ss ! (i + k) \<longrightarrow> j + ss ! j \<le> i + k + ss ! (i + k)"
    by (auto simp add: nested_def)
  have inner: "k + ss ! (i + k) \<le> ss ! i"
  proof (cases k)
    case 0
    then show ?thesis by simp
  next
    case (Suc k')
    from assms have "\<forall>j. i < j \<and> j < i + ss ! i \<longrightarrow> j + ss ! j \<le> i + ss ! i"
      by (simp add: nested_def)
    then have "i < i + k \<and> i + k < i + ss ! i \<longrightarrow> (i + k) + ss ! (i + k) \<le> i + ss ! i"
      by (rule spec)
    then have "(i + k) + ss ! (i + k) \<le> i + ss ! i" using k Suc by simp
    then show ?thesis by simp
  qed
  have "\<And>j. k < j \<Longrightarrow> j < k + ss ! (i + k) \<Longrightarrow> j + ?xs ! j \<le> k + ss ! (i + k)"
  proof -
    fix j assume j: "k < j" "j < k + ss ! (i + k)"
    then have "j < ss ! i" using inner by simp
    then have e: "?xs ! j = ss ! (i + j)" by (rule nth)
    from j have "i + k < i + j \<and> i + j < i + k + ss ! (i + k)" by simp
    with a(3) have "i + j + ss ! (i + j) \<le> i + k + ss ! (i + k)" by blast
    then show "j + ?xs ! j \<le> k + ss ! (i + k)" using e by simp
  qed
  then show "0 < ?xs ! k \<and> k + ?xs ! k \<le> length ?xs
        \<and> (\<forall>j. k < j \<and> j < k + ?xs ! k \<longrightarrow> j + ?xs ! j \<le> k + ?xs ! k)"
    using a(1) inner len nth [OF k] by auto
qed


lemma spans_ok_Nil: "spans_ok []"
  by (simp add: spans_ok_def nested_Nil)

lemma spans_ok_append: "spans_ok xs \<Longrightarrow> spans_ok ys \<Longrightarrow> spans_ok (xs @ ys)"
  by (simp add: spans_ok_def nested_append)

lemma spans_ok_Cons: "spans_ok ds \<Longrightarrow> scp r = Suc (length ds) \<Longrightarrow> spans_ok (r # ds)"
  using nested_Cons [of "map scp ds"] by (simp add: spans_ok_def)

lemma children_spans:
  assumes "spans_ok (g1 t)" and "children t from = Inr cs"
  shows "spans_ok cs"
proof (cases "locate t from = - 1")
  case True
  with assms(2) show ?thesis by (simp add: children_def spans_ok_Nil)
next
  case False
  let ?i = "nat (locate t from)"
  from False assms(2) have cs: "cs = take (scp (g1 t ! ?i)) (drop ?i (g1 t))"
    by (auto simp add: children_def Let_def split: if_splits)
  from locate_found [OF False] have i: "?i < length (g1 t)" by simp
  have "map scp cs = take (map scp (g1 t) ! ?i) (drop ?i (map scp (g1 t)))"
    using i by (simp add: cs take_map drop_map)
  moreover have "nested (take (map scp (g1 t) ! ?i) (drop ?i (map scp (g1 t))))"
    using assms(1) i by (intro nested_slice) (simp_all add: spans_ok_def)
  ultimately show ?thesis by (simp add: spans_ok_def)
qed

lemma reuse_spans:
  assumes "spans_ok (g1 t)" and "reuse from to c it acc t = Inr (t', c', acc')"
  shows "g1 t' = g1 t \<and> (\<exists>xs. g0 t' = g0 t @ xs \<and> spans_ok xs)"
proof -
  from reuse_Inr [OF assms(2)] obtain cs where cs: "children t from = Inr cs"
    and t': "t' = t\<lparr>g0 := g0 t @ map (\<lambda>(r, nt). r\<lparr>ntt := nt\<rparr>)
                    (zip cs (if cs = [] then [] else to # fresh_ids c (length cs - 1)))\<rparr>"
    by blast
  let ?news = "if cs = [] then [] else to # fresh_ids c (length cs - 1)"
  have len: "length cs = length ?news" by (cases cs) auto
  have "map scp (map (\<lambda>(r, nt). r\<lparr>ntt := nt\<rparr>) (zip cs ?news)) = map scp cs"
    using len by (rule map_scp_rename)
  then have "spans_ok (map (\<lambda>(r, nt). r\<lparr>ntt := nt\<rparr>) (zip cs ?news))"
    using children_spans [OF assms(1) cs] by (simp add: spans_ok_def)
  then show ?thesis using t' by simp
qed

lemma spans_step_refl: "spans_step s s"
  by (cases s) (simp add: spans_step_def spans_ok_Nil)

lemma spans_step_trans: "spans_step s1 s2 \<Longrightarrow> spans_step s2 s3 \<Longrightarrow> spans_step s1 s3"
  by (cases s1, cases s2, cases s3) (auto simp add: spans_step_def intro: spans_ok_append)

lemma entity_record_shape:
  assumes "ent \<noteq> 0" and "open_entity n ent t vm = Inr (idx, t1, vm3)"
    and "g0 t2 = g0 t1 @ ds" and "g1 t2 = g1 t1" and "close_entity ent idx t2 = Inr t3"
  shows "g0 t1 = g0 t @ [\<lparr>ntt = ent, scp = 0,
                          phdl = (if Some_hdl (hdl n) then hdl n else no_handler)\<rparr>]
    \<and> g0 t3 = g0 t @ \<lparr>ntt = ent, scp = Suc (length ds),
                       phdl = (if Some_hdl (hdl n) then hdl n else no_handler)\<rparr> # ds
    \<and> g1 t3 = g1 t \<and> g1 t1 = g1 t"
proof -
  from assms(1) open_entity_Inr [OF assms(2)] have idx: "idx = length (g0 t)"
    and t1: "t1 = t\<lparr>g0 := g0 t @ [\<lparr>ntt = ent, scp = 0,
               phdl = (if Some_hdl (hdl n) then hdl n else no_handler)\<rparr>]\<rparr>" by auto
  from assms(1) close_entity_Inr [OF assms(5)]
  have t3: "t3 = t2\<lparr>g0 := (g0 t2)[idx := (g0 t2 ! idx)\<lparr>scp := length (g0 t2) - idx\<rparr>]\<rparr>" by auto
  have "g0 t2 = g0 t @ \<lparr>ntt = ent, scp = 0,
               phdl = (if Some_hdl (hdl n) then hdl n else no_handler)\<rparr> # ds"
    using assms(3) t1 by simp
  then have "g0 t3 = g0 t @ \<lparr>ntt = ent, scp = Suc (length ds),
               phdl = (if Some_hdl (hdl n) then hdl n else no_handler)\<rparr> # ds"
    using t3 idx by (simp add: list_update_append nth_append)
  then show ?thesis using t1 t3 assms(4) by simp
qed

lemma serialize_spans:
  fixes s :: "'a sstate"
  shows "serialize f p s = Inr s' \<Longrightarrow> spans_step s s'"
proof (induction f arbitrary: p s s')
  case 0
  then show ?case by simp
next
  case (Suc f)
  obtain h t c vm where s: "s = (h, t, c, vm)" by (cases s) auto
  from Suc.prems [unfolded s] show ?case
  proof (cases rule: serialize_Suc_Inr)
    case (Nothing a)
    have "spans_step (h[a := (h ! a)\<lparr>visited := True\<rparr>], t, c, vm) s'"
    proof (rule loop_rel [OF spans_step_refl spans_step_trans _ Nothing(5)])
      fix x and s1 s2 :: "'a sstate"
      assume "(if x = None then Inl NilChild else serialize f x s1) = Inr s2"
      then have "serialize f x s1 = Inr s2" by (simp split: if_splits)
      then show "spans_step s1 s2" by (rule Suc.IH)
    qed
    then show ?thesis by (cases s') (simp add: s spans_step_def)
  next
    case (Reuse a t' c' vm')
    have "spans_ok (g1 t) \<longrightarrow> g1 t' = g1 t \<and> (\<exists>xs. g0 t' = g0 t @ xs \<and> spans_ok xs)"
    proof
      assume sp: "spans_ok (g1 t)"
      from reuse_spans [OF sp Reuse(5) [unfolded serialize_reuse_def]]
      show "g1 t' = g1 t \<and> (\<exists>xs. g0 t' = g0 t @ xs \<and> spans_ok xs)" .
    qed
    moreover from serialize_reuse_step [OF Reuse(5)] have "g1 t' = g1 t" by simp
    ultimately show ?thesis by (simp add: s Reuse(6) spans_step_def)
  next
    case (Default a ent c1 idx t1 vm3 h3 t2 c2 vm4 t3)
    have l: "spans_step (h[a := (h ! a)\<lparr>visited := True, Entity := ent\<rparr>], t1, c1,
               attrs_text (h ! a) vm3) (h3, t2, c2, vm4)"
    proof (rule loop_rel [OF spans_step_refl spans_step_trans _ Default(9)])
      fix x and s1 s2 :: "'a sstate"
      assume "serialize f x s1 = Inr s2"
      then show "spans_step s1 s2" by (rule Suc.IH)
    qed
    then have g12: "g1 t2 = g1 t1" by (simp add: spans_step_def)
    show ?thesis
    proof (cases "ent = 0")
      case True
      with open_entity_Inr [OF Default(8)] close_entity_Inr [OF Default(10)] l
      show ?thesis by (auto simp add: s Default(11) spans_step_def)
    next
      case False
      from False open_entity_Inr [OF Default(8)] have g11: "g1 t1 = g1 t" by auto
      have "spans_ok (g1 t) \<longrightarrow> (\<exists>xs. g0 t3 = g0 t @ xs \<and> spans_ok xs)"
      proof
        assume "spans_ok (g1 t)"
        with l g11 obtain ds where ds: "g0 t2 = g0 t1 @ ds" "spans_ok ds"
          by (auto simp add: spans_step_def)
        from entity_record_shape [OF False Default(8) ds(1) g12 Default(10)]
        have "g0 t3 = g0 t @ \<lparr>ntt = ent, scp = Suc (length ds),
               phdl = (if Some_hdl (hdl (h ! a)) then hdl (h ! a) else no_handler)\<rparr> # ds"
          by simp
        moreover have "spans_ok (\<lparr>ntt = ent, scp = Suc (length ds),
               phdl = (if Some_hdl (hdl (h ! a)) then hdl (h ! a) else no_handler)\<rparr> # ds)"
          using ds(2) by (rule spans_ok_Cons) simp
        ultimately show "\<exists>xs. g0 t3 = g0 t @ xs \<and> spans_ok xs" by blast
      qed
      moreover from serialize_step [OF Suc.prems] have "g1 t3 = g1 t"
        by (simp add: s Default(11) sstep_def)
      ultimately show ?thesis by (simp add: s Default(11) spans_step_def)
    qed
  qed
qed

lemma heap_step_visited_eq:
  "list_all2 node_step h h' \<Longrightarrow> a < length h \<Longrightarrow> visited (h ! a) \<Longrightarrow> h' ! a = h ! a"
  by (auto simp add: list_all2_conv_all_nth node_step_def)

text \<open>
  C4. \<^verbatim>\<open>closeScope(idx)\<close> sets the span of record \<open>idx\<close> to the current length minus \<open>idx\<close>
  and changes nothing else. For an element with an entity, \<^verbatim>\<open>serialize\<close> appends the
  record \<open>r\<close> of the element followed by exactly the records \<open>ds\<close> that the loop over its
  children appended, and the span of \<open>r\<close> is \<open>1 + length ds\<close>: the span covers the record
  and its descendants, nothing else. Whenever the spans of the previous generation are
  well formed, what a pass appends has well-formed spans (also the records copied by a
  reuse), and so has the current generation.
\<close>

theorem closeScope_spans_subtree:
  fixes h :: "'a heap"
  shows "(closeScope idx t = Inr t' \<longrightarrow>
            g0 t' = (g0 t)[idx := (g0 t ! idx)\<lparr>scp := length (g0 t) - idx\<rparr>]
            \<and> scp (g0 t' ! idx) = length (g0 t') - idx)
    \<and> (serialize (Suc f) (Some a) (h, t, c, vm) = Inr (h', t', c', vm')
          \<and> TagName (h ! a) \<noteq> ''nothing'' \<and> TagName (h ! a) \<noteq> ''reuse'' \<and> Entity (h' ! a) \<noteq> 0 \<longrightarrow>
          (\<exists>r ds hc tc cc vmc tc' vmc'.
              g0 t' = g0 t @ r # ds \<and> ntt r = Entity (h' ! a) \<and> scp r = Suc (length ds)
              \<and> loop (serialize f) (Children (h ! a)) (hc, tc, cc, vmc) = Inr (h', tc', c', vmc')
              \<and> g0 tc = g0 t @ [r\<lparr>scp := 0\<rparr>] \<and> g0 tc' = g0 tc @ ds))
    \<and> (serialize f p (h, t, c, vm) = Inr (h', t', c', vm') \<and> spans_ok (g1 t) \<longrightarrow>
          (\<exists>xs. g0 t' = g0 t @ xs \<and> spans_ok xs) \<and> (spans_ok (g0 t) \<longrightarrow> spans_ok (g0 t')))"
proof (intro conjI impI)
  assume "closeScope idx t = Inr t'"
  then show "g0 t' = (g0 t)[idx := (g0 t ! idx)\<lparr>scp := length (g0 t) - idx\<rparr>]"
    and "scp (g0 t' ! idx) = length (g0 t') - idx"
    by (auto simp add: closeScope_def split: if_splits)
next
  assume as: "serialize (Suc f) (Some a) (h, t, c, vm) = Inr (h', t', c', vm')
          \<and> TagName (h ! a) \<noteq> ''nothing'' \<and> TagName (h ! a) \<noteq> ''reuse'' \<and> Entity (h' ! a) \<noteq> 0"
  then have run: "serialize (Suc f) (Some a) (h, t, c, vm) = Inr (h', t', c', vm')" by simp
  from run show "\<exists>r ds hc tc cc vmc tc' vmc'.
              g0 t' = g0 t @ r # ds \<and> ntt r = Entity (h' ! a) \<and> scp r = Suc (length ds)
              \<and> loop (serialize f) (Children (h ! a)) (hc, tc, cc, vmc) = Inr (h', tc', c', vmc')
              \<and> g0 tc = g0 t @ [r\<lparr>scp := 0\<rparr>] \<and> g0 tc' = g0 tc @ ds"
  proof (cases rule: serialize_Suc_Inr)
    case (Nothing b)
    with as show ?thesis by simp
  next
    case (Reuse b t1 c1 vm1)
    with as show ?thesis by simp
  next
    case (Default b ent c1 idx t1 vm3 h3 t2 c2 vm4 t3)
    then have ba: "b = a" and h3: "h3 = h'" and t3: "t3 = t'" and c2: "c2 = c'" by simp_all
    let ?h2 = "h[a := (h ! a)\<lparr>visited := True, Entity := ent\<rparr>]"
    note lp = Default(9) [unfolded ba h3 c2]
    have st: "sstep (?h2, t1, c1, attrs_text (h ! a) vm3) (h', t2, c', vm4)"
      by (rule loop_step [OF _ lp]) (rule serialize_step)
    then have hh: "list_all2 node_step ?h2 h'" and g12: "g1 t2 = g1 t1"
      and "\<exists>ds. g0 t2 = g0 t1 @ ds" by (simp_all add: sstep_def)
    then obtain ds where ds: "g0 t2 = g0 t1 @ ds" by blast
    have al: "a < length h" using Default(2) ba by simp
    have "h' ! a = ?h2 ! a" using hh al by (intro heap_step_visited_eq) simp_all
    then have ent: "Entity (h' ! a) = ent" using al by simp
    with as have nz: "ent \<noteq> 0" by simp
    let ?r = "\<lparr>ntt = ent, scp = Suc (length ds),
               phdl = (if Some_hdl (hdl (h ! a)) then hdl (h ! a) else no_handler)\<rparr>"
    from entity_record_shape [OF nz Default(8) [unfolded ba] ds g12 Default(10)]
    have "g0 t1 = g0 t @ [?r\<lparr>scp := 0\<rparr>]" and "g0 t' = g0 t @ ?r # ds"
      by (simp_all add: t3)
    with lp ds ent show ?thesis
      by (intro exI [of _ ?r] exI [of _ ds] exI [of _ ?h2] exI [of _ t1] exI [of _ c1]
            exI [of _ "attrs_text (h ! a) vm3"] exI [of _ t2] exI [of _ vm4]) simp
  qed
next
  assume as: "serialize f p (h, t, c, vm) = Inr (h', t', c', vm') \<and> spans_ok (g1 t)"
  then have "serialize f p (h, t, c, vm) = Inr (h', t', c', vm')" by simp
  then have "spans_step (h, t, c, vm) (h', t', c', vm')" by (rule serialize_spans)
  with as show x: "\<exists>xs. g0 t' = g0 t @ xs \<and> spans_ok xs" by (simp add: spans_step_def)
  show "spans_ok (g0 t')" if "spans_ok (g0 t)"
    using x that by (auto intro: spans_ok_append)
qed


theorem closeScope_spans_subtree_witness:
  "serialize (Suc (Suc 0)) (Some 0)
     ([(GetNode ''div'' :: unit Node)\<lparr>Entity := 2, Children := [Some 1]\<rparr>,
       (GetNode ''button'')\<lparr>Entity := 4\<rparr>], \<lparr>g0 = [], g1 = []\<rparr>, 4, [])
   = Inr ([(GetNode ''div'')\<lparr>Entity := 2, Children := [Some 1], visited := True\<rparr>,
           (GetNode ''button'')\<lparr>Entity := 4, visited := True\<rparr>],
          \<lparr>g0 = [\<lparr>ntt = 2, scp = 2, phdl = no_handler\<rparr>, \<lparr>ntt = 4, scp = 1, phdl = no_handler\<rparr>],
            g1 = []\<rparr>, 4,
          program [CreateElement ''div'', SetID ''2'', CreateElement ''button'', SetID ''4'',
                   Next, Next])
   \<and> spans_ok [\<lparr>ntt = 2, scp = 2, phdl = no_handler :: unit intentHandler\<rparr>,
               \<lparr>ntt = 4, scp = 1, phdl = no_handler\<rparr>]"
proof -
  let ?h = "[(GetNode ''div'' :: unit Node)\<lparr>Entity := 2, Children := [Some 1]\<rparr>,
             (GetNode ''button'')\<lparr>Entity := 4\<rparr>]"
  let ?h' = "[(GetNode ''div'' :: unit Node)\<lparr>Entity := 2, Children := [Some 1], visited := True\<rparr>,
              (GetNode ''button'')\<lparr>Entity := 4, visited := True\<rparr>]"
  let ?t = "\<lparr>g0 = [], g1 = []\<rparr> :: unit etree"
  let ?t' = "\<lparr>g0 = [\<lparr>ntt = 2, scp = 2, phdl = no_handler\<rparr>, \<lparr>ntt = 4, scp = 1, phdl = no_handler\<rparr>],
              g1 = []\<rparr> :: unit etree"
  let ?vm = "program [CreateElement ''div'', SetID ''2'', CreateElement ''button'', SetID ''4'',
                   Next, Next]"
  have run: "serialize (Suc (Suc 0)) (Some 0) (?h, ?t, 4, []) = Inr (?h', ?t', 4, ?vm)"
    by (simp add: GetNode_def Let_def create_element_def courtesy_def open_entity_def add_def
        attrs_text_def close_entity_def closeScope_def program_def AddInstr_def AppendUint16_def
        Op_defs fmt_def FormatUint.simps digit_def)
  have sp: "spans_ok (g1 ?t)" by (simp add: spans_ok_Nil)
  from closeScope_spans_subtree [where h = ?h and t = ?t and c = 4 and vm = "[]" and h' = ?h'
      and t' = ?t' and c' = 4 and vm' = ?vm and f = "Suc (Suc 0)" and p = "Some 0"]
    run sp
  have "\<exists>xs. g0 ?t' = g0 ?t @ xs \<and> spans_ok xs" by blast
  then have "spans_ok (g0 ?t')" by simp
  with run show ?thesis by simp
qed

end
